theory Spec2Isabelle
  imports Main
begin

section \<open>The Reddit cog of the bot: \<^verbatim>\<open>bot/cogs/reddit.py\<close>\<close>

text \<open>
  The cog polls the content platform and relays posts to a messaging channel. The model
  below follows the methods of class \<^verbatim>\<open>Reddit\<close> one by one. The attributes of the cog and
  what the outside world records (requests issued, simulated time, messages sent, pins)
  are fields of one record that every method takes and returns. An exception is a value
  of type \<open>error\<close>; the state that a raising method leaves behind is returned with it.
\<close>

subsection \<open>Exceptions\<close>

datatype error =
    ValueError
  | IndexError
  | KeyError
  | AttributeError
  | ContentTypeError
  | OverflowError

subsection \<open>\<^verbatim>\<open>int(s, 36)\<close>\<close>

text \<open>
  A string is a list of code points below 256. \<^verbatim>\<open>int(s, 36)\<close> strips white space on both
  sides, reads an optional sign and then digits \<^verbatim>\<open>0-9\<close>, \<^verbatim>\<open>a-z\<close>, \<^verbatim>\<open>A-Z\<close>, where single
  underscores may stand between two digits; anything else raises \<^verbatim>\<open>ValueError\<close>, which is
  \<open>None\<close> here.
\<close>

definition digit36 :: "char \<Rightarrow> nat option" where
  "digit36 c =
     (let n = (of_char c :: nat)
      in if 48 \<le> n \<and> n \<le> 57 then Some (n - 48)
         else if 97 \<le> n \<and> n \<le> 122 then Some (n - 87)
         else if 65 \<le> n \<and> n \<le> 90 then Some (n - 55)
         else None)"

fun digits36 :: "nat \<Rightarrow> string \<Rightarrow> nat option" where
  "digits36 acc [] = Some acc"
| "digits36 acc (c # cs) =
     (if c = CHR ''_'' then
        (case cs of
           [] \<Rightarrow> None
         | d # ds \<Rightarrow> (case digit36 d of None \<Rightarrow> None | Some v \<Rightarrow> digits36 (acc * 36 + v) ds))
      else (case digit36 c of None \<Rightarrow> None | Some v \<Rightarrow> digits36 (acc * 36 + v) cs))"

definition number36 :: "string \<Rightarrow> nat option" where
  "number36 s =
     (case s of
        [] \<Rightarrow> None
      | c # cs \<Rightarrow> (case digit36 c of None \<Rightarrow> None | Some v \<Rightarrow> digits36 v cs))"

definition is_space :: "char \<Rightarrow> bool" where
  "is_space c = ((of_char c :: nat) \<in> {9, 10, 11, 12, 13, 32, 133, 160})"

definition strip :: "string \<Rightarrow> string" where
  "strip s = rev (dropWhile is_space (rev (dropWhile is_space s)))"

definition int36 :: "string \<Rightarrow> int option" where
  "int36 s =
     (case strip s of
        [] \<Rightarrow> None
      | c # cs \<Rightarrow>
          if c = CHR ''+'' then map_option int (number36 cs)
          else if c = CHR ''-'' then map_option (\<lambda>n. - int n) (number36 cs)
          else map_option int (number36 (c # cs)))"

subsection \<open>\<^verbatim>\<open>str.lower\<close>\<close>

definition lower_char :: "char \<Rightarrow> char" where
  "lower_char c =
     (let n = (of_char c :: nat)
      in if (65 \<le> n \<and> n \<le> 90) \<or> (192 \<le> n \<and> n \<le> 222 \<and> n \<noteq> 215)
         then char_of (n + 32) else c)"

definition lower :: "string \<Rightarrow> string" where
  "lower s = map lower_char s"

subsection \<open>Posts, requests and responses\<close>

text \<open>The \<^verbatim>\<open>data\<close> dictionary of one child of a listing.\<close>

record post =
  post_id :: string
  title :: string
  selftext :: string
  permalink :: string
  author :: string
  ups :: int
  num_comments :: int

datatype header_value = Text string | BasicAuth string string

type_synonym fields = "(string \<times> string) list"

datatype request =
    Post string "(string \<times> header_value) list" "(string \<times> string) option" fields
  | Head string "(string \<times> header_value) list"
  | Get string "(string \<times> header_value) list" fields

text \<open>
  What \<^verbatim>\<open>response.json()\<close> decodes to: a listing (\<^verbatim>\<open>content["data"]["children"]\<close>, each
  child of the shape of section 6 of the specification), a flat dictionary of strings
  (the token endpoint), or nothing that parses.
\<close>

datatype body =
    Listing "post list"
  | Tokens "string \<rightharpoonup> string"
  | Malformed

record response =
  status :: int
  content_type :: string
  resp_headers :: "string \<rightharpoonup> string"
  body :: body

text \<open>The platform: the answer to the next request, given how many were issued before.\<close>

type_synonym platform = "nat \<Rightarrow> response"

subsection \<open>Messages of the channel\<close>

text \<open>
  \<open>Shorten w t\<close> stands for \<^verbatim>\<open>textwrap.shorten(t, width=w, placeholder="...")\<close>; the text
  layout is left symbolic.
\<close>

datatype shortened = Shorten nat string

record embed_data =
  ed_title :: shortened
  ed_text :: shortened
  ed_url :: string
  ed_author :: string

datatype colour = Blurple | Red

datatype message =
    NewPost shortened string shortened string colour
  | TopPosts "string option" string "post list" colour
  | NotFound colour

datatype pin_event = Unpin nat | Pin nat

subsection \<open>The state\<close>

text \<open>
  An attribute that \<^verbatim>\<open>__init__\<close> does not assign is \<open>None\<close> until a method assigns it;
  reading it before raises \<^verbatim>\<open>AttributeError\<close>. \<open>clock\<close> counts the microseconds slept,
  \<open>requests\<close> lists the requests issued with the clock at that moment (oldest first),
  \<open>sent\<close> the messages sent to the channel with their ids, \<open>channel_pins\<close> the ids of the
  pinned messages as \<^verbatim>\<open>channel.pins()\<close> lists them, \<open>pin_log\<close> the pin and unpin calls.
\<close>

record state =
  client_auth :: "(string \<times> string) option"
  access_token :: "string option"
  refresh_token :: "string option"
  headers :: "(string \<times> header_value) list option"
  prev_lengths :: "string \<rightharpoonup> string"
  last_ids :: "string \<rightharpoonup> int"
  loaded :: bool
  clock :: nat
  requests :: "(nat \<times> request) list"
  sent :: "(nat \<times> message) list"
  next_id :: nat
  channel_pins :: "nat list"
  pin_log :: "pin_event list"

definition USER_AGENT :: string where
  "USER_AGENT =
     ''docker-python3:Discord Bot of PythonDiscord (https://pythondiscord.com/):v?.?.? (by /u/PythonDiscord)''"

definition URL :: string where
  "URL = ''https://www.reddit.com''"

definition OAUTH_URL :: string where
  "OAUTH_URL = ''https://oauth.reddit.com''"

definition MAX_FETCH_RETRIES :: nat where
  "MAX_FETCH_RETRIES = 3"

text \<open>\<^verbatim>\<open>__init__\<close>: the two dictionaries are empty, the token attributes are not assigned.\<close>

definition init :: "nat list \<Rightarrow> state" where
  "init pins =
     \<lparr>client_auth = None, access_token = None, refresh_token = None, headers = None,
      prev_lengths = Map.empty, last_ids = Map.empty, loaded = True, clock = 0,
      requests = [], sent = [], next_id = 0, channel_pins = pins, pin_log = []\<rparr>"

definition issue :: "request \<Rightarrow> state \<Rightarrow> state" where
  "issue r s = s\<lparr>requests := requests s @ [(clock s, r)]\<rparr>"

definition sleep :: "nat \<Rightarrow> state \<Rightarrow> state" where
  "sleep seconds s = s\<lparr>clock := clock s + seconds * 1000000\<rparr>"

definition is_json_ok :: "response \<Rightarrow> bool" where
  "is_json_ok r = (status r = 200 \<and> content_type r = ''application/json'')"

subsection \<open>\<^verbatim>\<open>fetch_posts\<close>\<close>

text \<open>
  The \<^verbatim>\<open>for\<close> loop over \<^verbatim>\<open>range(MAX_FETCH_RETRIES)\<close>, by the number of attempts left.
  Reading \<^verbatim>\<open>self.headers\<close> comes before the request is issued.
\<close>

fun fetch_attempts ::
  "platform \<Rightarrow> string \<Rightarrow> int \<Rightarrow> fields \<Rightarrow> nat \<Rightarrow> state \<Rightarrow> (error + post list) \<times> state" where
  "fetch_attempts pf url amount params 0 s = (Inr [], s)"
| "fetch_attempts pf url amount params (Suc k) s =
     (case headers s of
        None \<Rightarrow> (Inl AttributeError, s)
      | Some h \<Rightarrow>
          let r = pf (length (requests s));
              s1 = issue (Get url h params) s
          in if is_json_ok r then
               (case body r of
                  Listing posts \<Rightarrow> (Inr (take (nat amount) posts), s1)
                | Tokens content \<Rightarrow> (Inl KeyError, s1)
                | Malformed \<Rightarrow> (Inl ValueError, s1))
             else fetch_attempts pf url amount params k (sleep 3 s1))"

definition fetch_posts ::
  "platform \<Rightarrow> string \<Rightarrow> int \<Rightarrow> fields option \<Rightarrow> state \<Rightarrow> (error + post list) \<times> state" where
  "fetch_posts pf route amount params s =
     (if \<not> (25 \<ge> amount \<and> amount > 0) then (Inl ValueError, s)
      else fetch_attempts pf (OAUTH_URL @ ''/'' @ route) amount
             (case params of None \<Rightarrow> [] | Some p \<Rightarrow> p) MAX_FETCH_RETRIES s)"

subsection \<open>\<^verbatim>\<open>poll_new_posts\<close>\<close>

text \<open>The dictionary \<^verbatim>\<open>embed_data\<close> built for a post that is new.\<close>

definition embed_data_of :: "post \<Rightarrow> embed_data" where
  "embed_data_of dat =
     \<lparr>ed_title = Shorten 64 (title dat),
      ed_text = Shorten 128 (selftext dat),
      ed_url = URL @ permalink dat,
      ed_author = author dat\<rparr>"

text \<open>
  The loop \<^verbatim>\<open>for post in posts\<close> with its \<^verbatim>\<open>break\<close>: \<open>w\<close> is \<^verbatim>\<open>self.last_ids[subreddit]\<close>,
  \<open>new_posts\<close> the list appended to.
\<close>

fun scan_posts :: "int \<Rightarrow> embed_data list \<Rightarrow> post list \<Rightarrow> error + embed_data list" where
  "scan_posts w new_posts [] = Inr new_posts"
| "scan_posts w new_posts (p # ps) =
     (case int36 (post_id p) of
        None \<Rightarrow> Inl ValueError
      | Some int_id \<Rightarrow>
          if int_id \<le> w then Inr new_posts
          else scan_posts w (new_posts @ [embed_data_of p]) ps)"

text \<open>The embed sent for one entry of \<^verbatim>\<open>new_posts\<close>.\<close>

definition embed_of :: "string \<Rightarrow> embed_data \<Rightarrow> message" where
  "embed_of subreddit dat =
     NewPost (ed_title dat) (ed_url dat) (ed_text dat)
       (''Posted by u/'' @ ed_author dat @ '' in '' @ subreddit) Blurple"

text \<open>\<^verbatim>\<open>channel.send\<close>: the message gets the next id, which is returned.\<close>

definition send :: "message \<Rightarrow> state \<Rightarrow> nat \<times> state" where
  "send m s = (next_id s, s\<lparr>sent := sent s @ [(next_id s, m)], next_id := Suc (next_id s)\<rparr>)"

fun send_all :: "message list \<Rightarrow> state \<Rightarrow> state" where
  "send_all [] s = s"
| "send_all (m # ms) s = send_all ms (snd (send m s))"

text \<open>
  Lines 206 to 241, from \<^verbatim>\<open>new_posts = []\<close> to the last \<^verbatim>\<open>send\<close>, for the list \<open>posts\<close>
  that \<^verbatim>\<open>fetch_posts\<close> returned.
\<close>

definition relay_new_posts :: "string \<Rightarrow> post list \<Rightarrow> state \<Rightarrow> error option \<times> state" where
  "relay_new_posts subreddit posts s =
     (case (case last_ids s subreddit of
              None \<Rightarrow> Inr []
            | Some w \<Rightarrow> scan_posts w [] posts) of
        Inl e \<Rightarrow> (Some e, s)
      | Inr new_posts \<Rightarrow>
          (case posts of
             [] \<Rightarrow> (Some IndexError, s)
           | p # ps \<Rightarrow>
               (case int36 (post_id p) of
                  None \<Rightarrow> (Some ValueError, s)
                | Some n \<Rightarrow>
                    (None,
                     send_all (map (embed_of subreddit) new_posts)
                       (s\<lparr>last_ids := (last_ids s)(subreddit \<mapsto> n)\<rparr>)))))"

text \<open>
  Lines 190 to 202: the \<^verbatim>\<open>HEAD\<close> request and the comparison of \<^verbatim>\<open>content-length\<close>;
  \<open>Inr False\<close> is the \<^verbatim>\<open>continue\<close>.
\<close>

definition probe :: "platform \<Rightarrow> string \<Rightarrow> state \<Rightarrow> (error + bool) \<times> state" where
  "probe pf subreddit s =
     (case headers s of
        None \<Rightarrow> (Inl AttributeError, s)
      | Some h \<Rightarrow>
          let head_response = pf (length (requests s));
              s1 = issue (Head (OAUTH_URL @ ''/'' @ subreddit @ ''/new.rss'') h) s
          in case resp_headers head_response ''content-length'' of
               None \<Rightarrow> (Inl KeyError, s1)
             | Some content_length \<Rightarrow>
                 if Some content_length = prev_lengths s1 subreddit then (Inr False, s1)
                 else (Inr True,
                       s1\<lparr>prev_lengths := (prev_lengths s1)(subreddit \<mapsto> content_length)\<rparr>))"

text \<open>The body of \<^verbatim>\<open>for subreddit in RedditConfig.subreddits\<close>, for one subreddit.\<close>

definition poll_subreddit :: "platform \<Rightarrow> string \<Rightarrow> state \<Rightarrow> error option \<times> state" where
  "poll_subreddit pf subreddit s =
     (case probe pf subreddit s of
        (Inl e, s1) \<Rightarrow> (Some e, s1)
      | (Inr False, s1) \<Rightarrow> (None, s1)
      | (Inr True, s1) \<Rightarrow>
          (case fetch_posts pf (subreddit @ ''/new'') 25 None s1 of
             (Inl e, s2) \<Rightarrow> (Some e, s2)
           | (Inr posts, s2) \<Rightarrow> relay_new_posts subreddit posts s2))"

text \<open>The \<^verbatim>\<open>for\<close> loop: an exception ends it.\<close>

fun poll_subreddits :: "platform \<Rightarrow> string list \<Rightarrow> state \<Rightarrow> error option \<times> state" where
  "poll_subreddits pf [] s = (None, s)"
| "poll_subreddits pf (subreddit # rest) s =
     (case poll_subreddit pf subreddit s of
        (Some e, s1) \<Rightarrow> (Some e, s1)
      | (None, s1) \<Rightarrow> poll_subreddits pf rest s1)"

text \<open>
  One turn of \<^verbatim>\<open>while True\<close>; \<open>request_delay\<close> and \<open>subreddits\<close> are the values of
  \<^verbatim>\<open>RedditConfig\<close>.
\<close>

definition poll_new_posts_cycle ::
  "platform \<Rightarrow> nat \<Rightarrow> string list \<Rightarrow> state \<Rightarrow> error option \<times> state" where
  "poll_new_posts_cycle pf request_delay subreddits s =
     poll_subreddits pf subreddits (sleep request_delay s)"

subsection \<open>The token manager: \<^verbatim>\<open>get_tokens\<close> and \<^verbatim>\<open>refresh_access_token\<close>\<close>

definition bearer_headers :: "string \<Rightarrow> (string \<times> header_value) list" where
  "bearer_headers tok =
     [(''Authorization'', Text (''bearer '' @ tok)), (''User-Agent'', Text USER_AGENT)]"

text \<open>
  \<open>client_id\<close> and \<open>secret\<close> are the values of \<^verbatim>\<open>RedditConfig\<close>. On a response that is not
  a success the cog is removed from the bot and the method returns; no attribute but
  \<^verbatim>\<open>client_auth\<close> has been assigned then.
\<close>

definition get_tokens ::
  "string \<Rightarrow> string \<Rightarrow> platform \<Rightarrow> state \<Rightarrow> error option \<times> state" where
  "get_tokens client_id secret pf s =
     (let s0 = s\<lparr>client_auth := Some (client_id, secret)\<rparr>;
          response = pf (length (requests s0));
          s1 = issue (Post (URL @ ''/api/v1/access_token'')
                        [(''User-Agent'', Text USER_AGENT)]
                        (Some (client_id, secret))
                        [(''grant_type'', ''client_credentials''), (''duration'', ''permanent'')]) s0
      in if is_json_ok response then
           (case body response of
              Tokens content \<Rightarrow>
                (case content ''access_token'' of
                   None \<Rightarrow> (Some KeyError, s1)
                 | Some a \<Rightarrow>
                     let s2 = s1\<lparr>access_token := Some a\<rparr>
                     in (case content ''refresh_token'' of
                           None \<Rightarrow> (Some KeyError, s2)
                         | Some r \<Rightarrow>
                             (None, s2\<lparr>refresh_token := Some r,
                                       headers := Some (bearer_headers a)\<rparr>)))
            | Listing posts \<Rightarrow> (Some KeyError, s1)
            | Malformed \<Rightarrow> (Some ValueError, s1))
         else (None, s1\<lparr>loaded := False\<rparr>))"

text \<open>
  The body of the refresh loop. \<^verbatim>\<open>response.json()\<close> of the HTTP client raises on a content
  type other than JSON; the status is not looked at.
\<close>

definition refresh_access_token :: "platform \<Rightarrow> state \<Rightarrow> error option \<times> state" where
  "refresh_access_token pf s =
     (case client_auth s of
        None \<Rightarrow> (Some AttributeError, s)
      | Some auth \<Rightarrow>
          (case refresh_token s of
             None \<Rightarrow> (Some AttributeError, s)
           | Some rt \<Rightarrow>
               let response = pf (length (requests s));
                   s1 = issue (Post (URL @ ''/api/v1/access_token'')
                                 [(''Authorization'', BasicAuth (fst auth) (snd auth))]
                                 None
                                 [(''grant_type'', ''refresh_token''), (''refresh_token'', rt)]) s
               in if content_type response \<noteq> ''application/json'' then (Some ContentTypeError, s1)
                  else (case body response of
                          Tokens content \<Rightarrow>
                            (case content ''access_token'' of
                               None \<Rightarrow> (Some KeyError, s1)
                             | Some a \<Rightarrow>
                                 (None, s1\<lparr>access_token := Some a,
                                           headers := Some (bearer_headers a)\<rparr>))
                        | Listing posts \<Rightarrow> (Some KeyError, s1)
                        | Malformed \<Rightarrow> (Some ValueError, s1))))"

text \<open>
  \<^verbatim>\<open>@tasks.loop(hours=0.99)\<close>: the body runs every 3564 seconds until it raises; \<open>n\<close>
  bounds the number of turns looked at.
\<close>

fun refresh_loop :: "platform \<Rightarrow> nat \<Rightarrow> state \<Rightarrow> error option \<times> state" where
  "refresh_loop pf 0 s = (None, s)"
| "refresh_loop pf (Suc n) s =
     (case refresh_access_token pf s of
        (Some e, s1) \<Rightarrow> (Some e, s1)
      | (None, s1) \<Rightarrow> refresh_loop pf n (sleep 3564 s1))"

subsection \<open>The weekly digest: \<^verbatim>\<open>send_top_posts\<close> and \<^verbatim>\<open>poll_top_weekly_posts\<close>\<close>

text \<open>
  A \<^verbatim>\<open>datetime\<close> by the ordinal of its date (\<^verbatim>\<open>toordinal()\<close>, day 1 is 0001-01-01) and its
  time of day.
\<close>

record datetime =
  ordinal :: int
  hour :: nat
  minute :: nat
  second :: nat
  microsecond :: nat

definition MAXORDINAL :: int where
  "MAXORDINAL = 3652059"

definition weekday :: "datetime \<Rightarrow> int" where
  "weekday d = (ordinal d + 6) mod 7"

text \<open>\<^verbatim>\<open>d + timedelta(days=k)\<close>\<close>

definition add_days :: "datetime \<Rightarrow> int \<Rightarrow> error + datetime" where
  "add_days d k =
     (if 0 < ordinal d + k \<and> ordinal d + k \<le> MAXORDINAL
      then Inr (d\<lparr>ordinal := ordinal d + k\<rparr>) else Inl OverflowError)"

text \<open>
  \<^verbatim>\<open>a - b\<close> as the number of microseconds of the \<^verbatim>\<open>timedelta\<close>; \<^verbatim>\<open>total_seconds()\<close> is this
  number divided by \<open>10\<^sup>6\<close>.
\<close>

definition seconds_of_day :: "datetime \<Rightarrow> int" where
  "seconds_of_day d = int (second d) + int (minute d) * 60 + int (hour d) * 3600"

definition sub_datetime :: "datetime \<Rightarrow> datetime \<Rightarrow> int" where
  "sub_datetime a b =
     ((ordinal a - ordinal b) * 86400 + (seconds_of_day a - seconds_of_day b)) * 1000000
       + (int (microsecond a) - int (microsecond b))"

text \<open>Lines 251 and 252: the date and time the loop sleeps until.\<close>

definition next_monday :: "datetime \<Rightarrow> error + datetime" where
  "next_monday now =
     (case add_days now (7 - weekday now) of
        Inl e \<Rightarrow> Inl e
      | Inr monday \<Rightarrow> Inr (monday\<lparr>hour := 0, minute := 0, second := 0\<rparr>))"

text \<open>Line 253, in microseconds.\<close>

definition until_monday :: "datetime \<Rightarrow> error + int" where
  "until_monday now =
     (case next_monday now of
        Inl e \<Rightarrow> Inl e
      | Inr monday \<Rightarrow> Inr (sub_datetime monday now))"

definition sleep_micro :: "nat \<Rightarrow> state \<Rightarrow> state" where
  "sleep_micro us s = s\<lparr>clock := clock s + us\<rparr>"

text \<open>
  \<^verbatim>\<open>send_top_posts\<close> to the relay channel; \<open>TopPosts\<close> stands for the embed laid out from
  the posts, \<open>NotFound\<close> for the error embed.
\<close>

definition send_top_posts ::
  "platform \<Rightarrow> string \<Rightarrow> string option \<Rightarrow> string \<Rightarrow> state \<Rightarrow> (error + nat) \<times> state" where
  "send_top_posts pf subreddit content time s =
     (case fetch_posts pf (subreddit @ ''/top'') 5 (Some [(''t'', time)]) s of
        (Inl e, s1) \<Rightarrow> (Inl e, s1)
      | (Inr posts, s1) \<Rightarrow>
          if posts = [] then (case send (NotFound Red) s1 of (m, s2) \<Rightarrow> (Inr m, s2))
          else (case send (TopPosts content subreddit posts Blurple) s1 of
                  (m, s2) \<Rightarrow> (Inr m, s2)))"

definition unpin :: "nat \<Rightarrow> state \<Rightarrow> state" where
  "unpin m s = s\<lparr>channel_pins := removeAll m (channel_pins s), pin_log := pin_log s @ [Unpin m]\<rparr>"

definition pin :: "nat \<Rightarrow> state \<Rightarrow> state" where
  "pin m s = s\<lparr>channel_pins := m # channel_pins s, pin_log := pin_log s @ [Pin m]\<rparr>"

text \<open>
  Lines 270 to 272: \<^verbatim>\<open>while len(pins) >= 5\<close>, on the local list \<open>pins\<close>. The channel
  lists its pins most recent first, so \<^verbatim>\<open>pins[-1]\<close> is the oldest.
\<close>

function unpin_oldest :: "nat list \<Rightarrow> state \<Rightarrow> nat list \<times> state" where
  "unpin_oldest pins s =
     (if length pins \<ge> 5 then unpin_oldest (butlast pins) (unpin (last pins) s)
      else (pins, s))"
  by pat_completeness auto
termination
  by (relation "measure (\<lambda>(pins, s). length pins)") auto

text \<open>The body of the loop over the subreddits, lines 258 to 274.\<close>

definition digest_subreddit :: "platform \<Rightarrow> string \<Rightarrow> state \<Rightarrow> error option \<times> state" where
  "digest_subreddit pf subreddit s =
     (case send_top_posts pf subreddit
             (Some (''This week'' @ [CHR 0x27] @ ''s top '' @ subreddit @ '' posts have arrived!''))
             ''week'' s of
        (Inl e, s1) \<Rightarrow> (Some e, s1)
      | (Inr message, s1) \<Rightarrow>
          if lower subreddit = ''r/python'' then
            (case unpin_oldest (channel_pins s1) s1 of
               (pins, s2) \<Rightarrow> (None, pin message s2))
          else (None, s1))"

fun digest_subreddits :: "platform \<Rightarrow> string list \<Rightarrow> state \<Rightarrow> error option \<times> state" where
  "digest_subreddits pf [] s = (None, s)"
| "digest_subreddits pf (subreddit # rest) s =
     (case digest_subreddit pf subreddit s of
        (Some e, s1) \<Rightarrow> (Some e, s1)
      | (None, s1) \<Rightarrow> digest_subreddits pf rest s1)"

text \<open>One turn of \<^verbatim>\<open>while True\<close>, with \<open>now\<close> the value of \<^verbatim>\<open>datetime.utcnow()\<close>.\<close>

definition poll_top_weekly_posts_cycle ::
  "platform \<Rightarrow> datetime \<Rightarrow> string list \<Rightarrow> state \<Rightarrow> error option \<times> state" where
  "poll_top_weekly_posts_cycle pf now subreddits s =
     (case until_monday now of
        Inl e \<Rightarrow> (Some e, s)
      | Inr us \<Rightarrow> digest_subreddits pf subreddits (sleep_micro (nat us) s))"

subsection \<open>The three background loops together\<close>

text \<open>
  \<^verbatim>\<open>init_reddit_polling\<close> starts the refresh task, whose first step is \<^verbatim>\<open>get_tokens\<close>, and
  creates the two polling tasks whenever the channel was found; nothing there looks at
  the outcome of \<^verbatim>\<open>get_tokens\<close>. What runs after \<^verbatim>\<open>get_tokens\<close> is some sequence of turns
  of the three loops.
\<close>

datatype turn = RefreshTurn | NewPostsTurn | TopWeeklyTurn datetime

record config =
  request_delay :: nat
  subreddits :: "string list"

definition turn_of :: "platform \<Rightarrow> config \<Rightarrow> turn \<Rightarrow> state \<Rightarrow> error option \<times> state" where
  "turn_of pf cfg t s =
     (case t of
        RefreshTurn \<Rightarrow> refresh_access_token pf s
      | NewPostsTurn \<Rightarrow> poll_new_posts_cycle pf (request_delay cfg) (subreddits cfg) s
      | TopWeeklyTurn now \<Rightarrow> poll_top_weekly_posts_cycle pf now (subreddits cfg) s)"

fun run :: "platform \<Rightarrow> config \<Rightarrow> turn list \<Rightarrow> state \<Rightarrow> state" where
  "run pf cfg [] s = s"
| "run pf cfg (t # ts) s = run pf cfg ts (snd (turn_of pf cfg t s))"

text \<open>The requests that fetch content: the probes and the listings.\<close>

fun is_fetch :: "request \<Rightarrow> bool" where
  "is_fetch (Post url h auth dat) = False"
| "is_fetch (Head url h) = True"
| "is_fetch (Get url h params) = True"

subsection \<open>Vocabulary of the properties\<close>

text \<open>A post whose id decodes to an ordinal strictly greater than the watermark \<open>w\<close>.\<close>

definition newer_than :: "int \<Rightarrow> post \<Rightarrow> bool" where
  "newer_than w p = (case int36 (post_id p) of None \<Rightarrow> False | Some n \<Rightarrow> w < n)"

text \<open>The messages of the channel, oldest first, without their ids.\<close>

definition messages :: "state \<Rightarrow> message list" where
  "messages s = map snd (sent s)"

text \<open>The request that \<^verbatim>\<open>refresh_access_token\<close> posts with the refresh token \<open>rt\<close>.\<close>

definition refresh_post :: "string \<times> string \<Rightarrow> string \<Rightarrow> request" where
  "refresh_post auth rt =
     Post (URL @ ''/api/v1/access_token'')
       [(''Authorization'', BasicAuth (fst auth) (snd auth))]
       None
       [(''grant_type'', ''refresh_token''), (''refresh_token'', rt)]"

text \<open>
  \<open>tokens_kept s s'\<close>: from \<open>s\<close> to \<open>s'\<close> the client identity and the refresh token are the
  same, the requests of \<open>s\<close> are still the first requests of \<open>s'\<close>, and every request
  issued since is a probe, a listing request, or the refresh request carrying the refresh
  token of \<open>s\<close>.
\<close>

definition tokens_kept :: "state \<Rightarrow> state \<Rightarrow> bool" where
  "tokens_kept s s' =
     (client_auth s' = client_auth s \<and> refresh_token s' = refresh_token s
      \<and> take (length (requests s)) (requests s') = requests s
      \<and> list_all
          (\<lambda>q. is_fetch (snd q)
             \<or> (case client_auth s of
                   None \<Rightarrow> False
                 | Some auth \<Rightarrow>
                     (case refresh_token s of
                        None \<Rightarrow> False
                      | Some rt \<Rightarrow> snd q = refresh_post auth rt)))
          (drop (length (requests s)) (requests s')))"

subsection \<open>Concrete inputs\<close>

definition example_post :: "string \<Rightarrow> post" where
  "example_post i =
     \<lparr>post_id = i, title = ''Post '' @ i, selftext = [],
      permalink = ''/r/Python/comments/'' @ i, author = ''someone'', ups = 1, num_comments = 0\<rparr>"

definition listing_response :: "post list \<Rightarrow> response" where
  "listing_response posts =
     \<lparr>status = 200, content_type = ''application/json'', resp_headers = Map.empty,
      body = Listing posts\<rparr>"

definition unavailable :: response where
  "unavailable =
     \<lparr>status = 503, content_type = ''text/html'', resp_headers = Map.empty, body = Malformed\<rparr>"

definition head_response :: "string \<Rightarrow> response" where
  "head_response n =
     \<lparr>status = 200, content_type = ''application/atom+xml'',
      resp_headers = [''content-length'' \<mapsto> n], body = Malformed\<rparr>"

text \<open>A state with the tokens and the headers assigned, and the pins \<open>pins\<close> in the channel.\<close>

definition ready :: "nat list \<Rightarrow> state" where
  "ready pins =
     (init pins)\<lparr>client_auth := Some (''id'', ''secret''), access_token := Some ''tok'',
                refresh_token := Some ''ref'',
                headers := Some [(''Authorization'', Text ''bearer tok'')]\<rparr>"

text \<open>A platform that answers the probe with a length and every later request with \<open>r\<close>.\<close>

definition probe_then :: "string \<Rightarrow> response \<Rightarrow> platform" where
  "probe_then n r = (\<lambda>k. if k = 0 then head_response n else r)"

text \<open>
  The relay of \<^verbatim>\<open>r/Python\<close> with the watermark \<open>w\<close> (\<open>None\<close>: no entry yet), and a platform
  whose listing has the posts of the ids \<open>ids\<close>, most recent first.
\<close>

definition watching :: "int option \<Rightarrow> state" where
  "watching w =
     (ready [])\<lparr>last_ids := (case w of None \<Rightarrow> Map.empty | Some n \<Rightarrow> [''r/Python'' \<mapsto> n])\<rparr>"

definition page :: "string list \<Rightarrow> platform" where
  "page ids = probe_then ''4096'' (listing_response (map example_post ids))"

text \<open>
  The state of \<open>watching w\<close> after the probe, and after one successful request of the
  listing.
\<close>

definition probed :: "int option \<Rightarrow> state" where
  "probed w =
     (watching w)\<lparr>prev_lengths := [''r/Python'' \<mapsto> ''4096''],
                  requests :=
                    [(0, Head (OAUTH_URL @ ''/r/Python/new.rss'')
                           [(''Authorization'', Text ''bearer tok'')])]\<rparr>"

definition fetched :: "int option \<Rightarrow> state" where
  "fetched w =
     (probed w)\<lparr>requests := requests (probed w) @
                    [(0, Get (OAUTH_URL @ ''/r/Python/new'')
                           [(''Authorization'', Text ''bearer tok'')] [])]\<rparr>"

text \<open>A token endpoint that grants the access token \<open>a\<close>, and a configuration.\<close>

definition token_response :: "string \<Rightarrow> response" where
  "token_response a =
     \<lparr>status = 200, content_type = ''application/json'', resp_headers = Map.empty,
      body = Tokens [''access_token'' \<mapsto> a]\<rparr>"

definition example_config :: config where
  "example_config = \<lparr>request_delay = 60, subreddits = [''r/Python'']\<rparr>"

text \<open>Monday 2024-01-01, half a second after midnight; and the Monday after, at midnight.\<close>

definition monday_half_past :: datetime where
  "monday_half_past = \<lparr>ordinal = 738886, hour = 0, minute = 0, second = 0, microsecond = 500000\<rparr>"

definition next_monday_midnight :: datetime where
  "next_monday_midnight = \<lparr>ordinal = 738893, hour = 0, minute = 0, second = 0, microsecond = 0\<rparr>"

section \<open>Properties\<close>

subsection \<open>\<^verbatim>\<open>fetch_posts\<close>\<close>

lemma fetch_attempts_length:
  "fetch_attempts pf url amount params k s = (Inr posts, s') \<Longrightarrow> length posts \<le> nat amount"
  by (induction k arbitrary: s) (auto simp: Let_def split: option.splits if_splits body.splits)

text \<open>
  Claim C5. A call of \<^verbatim>\<open>fetch_posts\<close> with an amount outside \<open>(0, 25]\<close> raises \<^verbatim>\<open>ValueError\<close>
  and leaves the state as it was, so no request has been issued. With an amount inside
  \<open>(0, 25]\<close>, every list the call returns has at most \<open>amount\<close> items; and when the
  platform answers the first request with a success and a listing, the call returns the
  first \<open>amount\<close> items of that listing.
\<close>

theorem fetch_posts_amount:
  "(\<not> (0 < amount \<and> amount \<le> 25) \<longrightarrow>
      fetch_posts pf route amount params s = (Inl ValueError, s))
   \<and> (0 < amount \<and> amount \<le> 25 \<longrightarrow>
      (\<forall>posts s'. fetch_posts pf route amount params s = (Inr posts, s')
         \<longrightarrow> int (length posts) \<le> amount)
      \<and> (\<forall>h page. headers s = Some h \<and> is_json_ok (pf (length (requests s)))
             \<and> body (pf (length (requests s))) = Listing page
         \<longrightarrow> fst (fetch_posts pf route amount params s) = Inr (take (nat amount) page)))"
proof (intro conjI impI allI)
  assume "\<not> (0 < amount \<and> amount \<le> 25)"
  then show "fetch_posts pf route amount params s = (Inl ValueError, s)"
    by (auto simp: fetch_posts_def)
next
  fix posts s'
  assume a: "0 < amount \<and> amount \<le> 25"
    and r: "fetch_posts pf route amount params s = (Inr posts, s')"
  from a r have "length posts \<le> nat amount"
    by (auto simp: fetch_posts_def dest: fetch_attempts_length)
  with a show "int (length posts) \<le> amount" by linarith
next
  fix h page
  assume a: "0 < amount \<and> amount \<le> 25"
    and ok: "headers s = Some h \<and> is_json_ok (pf (length (requests s)))
             \<and> body (pf (length (requests s))) = Listing page"
  from a ok show "fst (fetch_posts pf route amount params s) = Inr (take (nat amount) page)"
    by (simp add: fetch_posts_def MAX_FETCH_RETRIES_def numeral_3_eq_3 Let_def)
qed

theorem fetch_posts_amount_witness:
  "fetch_posts (\<lambda>k. listing_response (map example_post [''4'', ''3'', ''2'']))
       ''r/Python/new'' 30 None (ready [])
     = (Inl ValueError, ready [])
   \<and> fst (fetch_posts (\<lambda>k. listing_response (map example_post [''4'', ''3'', ''2'']))
            ''r/Python/new'' 2 None (ready []))
     = Inr (map example_post [''4'', ''3''])"
  using
    fetch_posts_amount [of 30 "\<lambda>k. listing_response (map example_post [''4'', ''3'', ''2''])"
      "''r/Python/new''" None "ready []"]
    fetch_posts_amount [of 2 "\<lambda>k. listing_response (map example_post [''4'', ''3'', ''2''])"
      "''r/Python/new''" None "ready []"]
  by (simp add: ready_def init_def is_json_ok_def listing_response_def numeral_2_eq_2)

text \<open>
  Claim C6. With a valid amount and the headers assigned, if the platform answers the
  next three requests with something other than status 200 and JSON, \<^verbatim>\<open>fetch_posts\<close>
  issues exactly three requests, at the simulated times \<open>t\<close>, \<open>t + 3 s\<close> and \<open>t + 6 s\<close>
  (the clock counts microseconds), sleeps three seconds after each of them, and returns
  the empty list, not an error.
\<close>

theorem fetch_posts_gives_up:
  assumes "0 < amount" and "amount \<le> 25"
    and "headers s = Some h"
    and "\<not> is_json_ok (pf (length (requests s)))"
    and "\<not> is_json_ok (pf (length (requests s) + 1))"
    and "\<not> is_json_ok (pf (length (requests s) + 2))"
  shows "fetch_posts pf route amount params s =
           (Inr [],
            s\<lparr>clock := clock s + 9000000,
              requests := requests s @
                [(clock s,
                  Get (OAUTH_URL @ ''/'' @ route) h (case params of None \<Rightarrow> [] | Some p \<Rightarrow> p)),
                 (clock s + 3000000,
                  Get (OAUTH_URL @ ''/'' @ route) h (case params of None \<Rightarrow> [] | Some p \<Rightarrow> p)),
                 (clock s + 6000000,
                  Get (OAUTH_URL @ ''/'' @ route) h (case params of None \<Rightarrow> [] | Some p \<Rightarrow> p))]\<rparr>)"
  using assms
  by (simp add: fetch_posts_def MAX_FETCH_RETRIES_def numeral_3_eq_3 Let_def issue_def sleep_def)

theorem fetch_posts_gives_up_witness:
  "fst (fetch_posts (\<lambda>k. unavailable) ''r/Python/new'' 25 None (ready [])) = Inr []
   \<and> map fst (requests (snd (fetch_posts (\<lambda>k. unavailable) ''r/Python/new'' 25 None (ready []))))
       = [0, 3000000, 6000000]"
  using fetch_posts_gives_up [of 25 "ready []" "[(''Authorization'', Text ''bearer tok'')]"
      "\<lambda>k. unavailable" "''r/Python/new''" None]
  by (simp add: ready_def init_def is_json_ok_def unavailable_def)

subsection \<open>\<^verbatim>\<open>poll_new_posts\<close>: what the parts of a cycle change\<close>

lemma fetch_attempts_frame:
  "fetch_attempts pf url amount params k s = (r, s') \<Longrightarrow>
     s' = s\<lparr>clock := clock s', requests := requests s'\<rparr>"
proof (induction k arbitrary: s)
  case 0
  then show ?case by auto
next
  case (Suc k)
  show ?case
  proof (cases "headers s")
    case None
    with Suc.prems show ?thesis by auto
  next
    case (Some h)
    show ?thesis
    proof (cases "is_json_ok (pf (length (requests s)))")
      case True
      with Some Suc.prems show ?thesis
        by (auto simp: Let_def issue_def split: body.splits)
    next
      case False
      with Some Suc.prems
      have "fetch_attempts pf url amount params k (sleep 3 (issue (Get url h params) s)) = (r, s')"
        by (simp add: Let_def)
      from Suc.IH [OF this] show ?thesis
        by (simp add: sleep_def issue_def)
    qed
  qed
qed

lemma fetch_posts_frame:
  "fetch_posts pf route amount params s = (r, s') \<Longrightarrow>
     s' = s\<lparr>clock := clock s', requests := requests s'\<rparr>"
  by (auto simp: fetch_posts_def split: if_splits dest: fetch_attempts_frame)

lemma probe_frame:
  "probe pf subreddit s = (r, s') \<Longrightarrow>
     s' = s\<lparr>requests := requests s', prev_lengths := prev_lengths s'\<rparr>"
  by (auto simp: probe_def Let_def issue_def split: option.splits if_splits)

lemma scan_posts_decoded:
  "\<forall>p \<in> set ps. int36 (post_id p) \<noteq> None \<Longrightarrow>
   scan_posts w acc ps = Inr (acc @ map embed_data_of (takeWhile (newer_than w) ps))"
  by (induction ps arbitrary: acc) (auto simp: newer_than_def)

lemma takeWhile_newer_sorted:
  "map (\<lambda>p. int36 (post_id p)) ps = map Some ns \<Longrightarrow> sorted_wrt (\<ge>) ns \<Longrightarrow>
   takeWhile (newer_than w) ps = filter (newer_than w) ps"
proof (induction ps arbitrary: ns)
  case Nil
  then show ?case by simp
next
  case (Cons p ps)
  then obtain n ns' where ns: "ns = n # ns'" and p: "int36 (post_id p) = Some n"
    and rest: "map (\<lambda>p. int36 (post_id p)) ps = map Some ns'"
    by (cases ns) auto
  from Cons.prems ns have sorted: "sorted_wrt (\<ge>) ns'" and le: "\<forall>m \<in> set ns'. m \<le> n"
    by auto
  show ?case
  proof (cases "newer_than w p")
    case True
    with Cons.IH [OF rest sorted] show ?thesis by simp
  next
    case False
    with p have "n \<le> w" by (simp add: newer_than_def)
    have "\<forall>q \<in> set ps. \<not> newer_than w q"
    proof
      fix q assume "q \<in> set ps"
      then have "int36 (post_id q) \<in> set (map (\<lambda>p. int36 (post_id p)) ps)" by auto
      with rest obtain m where "m \<in> set ns'" and "int36 (post_id q) = Some m" by auto
      with le \<open>n \<le> w\<close> show "\<not> newer_than w q" by (auto simp: newer_than_def)
    qed
    then have "filter (newer_than w) ps = []" by (simp add: filter_empty_conv)
    with False show ?thesis by simp
  qed
qed

lemma send_all_messages: "messages (send_all ms s) = messages s @ ms"
  by (induction ms arbitrary: s) (auto simp: messages_def send_def)

lemma messages_last_ids_update: "messages (s\<lparr>last_ids := x\<rparr>) = messages s"
  by (simp add: messages_def)

lemma send_all_last_ids: "last_ids (send_all ms s) = last_ids s"
  by (induction ms arbitrary: s) (auto simp: send_def)

lemma relay_new_posts_warm:
  assumes "last_ids s subreddit = Some W"
    and "posts \<noteq> []"
    and "map (\<lambda>p. int36 (post_id p)) posts = map Some ns"
    and "sorted_wrt (\<ge>) ns"
  shows "relay_new_posts subreddit posts s =
           (None,
            send_all (map (embed_of subreddit) (map embed_data_of (filter (newer_than W) posts)))
              (s\<lparr>last_ids := (last_ids s)(subreddit \<mapsto> hd ns)\<rparr>))"
proof -
  from assms(2,3) obtain p ps n ns' where posts: "posts = p # ps" and ns: "ns = n # ns'"
    and p: "int36 (post_id p) = Some n"
    by (cases posts; cases ns) auto
  have dec: "\<forall>q \<in> set posts. int36 (post_id q) \<noteq> None"
  proof
    fix q assume "q \<in> set posts"
    then have "int36 (post_id q) \<in> set (map (\<lambda>p. int36 (post_id p)) posts)" by auto
    with assms(3) show "int36 (post_id q) \<noteq> None" by auto
  qed
  have "scan_posts W [] posts = Inr (map embed_data_of (filter (newer_than W) posts))"
    using scan_posts_decoded [OF dec, of W "[]"] takeWhile_newer_sorted [OF assms(3,4), of W]
    by simp
  with assms(1) posts p ns show ?thesis
    by (simp add: relay_new_posts_def)
qed

lemma relay_new_posts_last_ids:
  assumes "relay_new_posts subreddit posts s = (e, s')"
  shows "last_ids s' subreddit = last_ids s subreddit
         \<or> (\<exists>p ps n. posts = p # ps \<and> int36 (post_id p) = Some n \<and> last_ids s' subreddit = Some n)"
  using assms
  by (auto simp: relay_new_posts_def send_all_last_ids
      split: option.splits sum.splits list.splits)

lemma relay_new_posts_rewrites:
  assumes "relay_new_posts subreddit (p # ps) s = (None, s')"
    and "int36 (post_id p) = Some n"
  shows "last_ids s' subreddit = Some n"
  using assms
  by (auto simp: relay_new_posts_def send_all_last_ids split: option.splits sum.splits)

lemma relay_new_posts_known_first:
  assumes "last_ids s subreddit = Some W"
    and "int36 (post_id p) = Some n"
    and "n \<le> W"
  shows "fst (relay_new_posts subreddit (p # ps) s) = None"
  using assms by (simp add: relay_new_posts_def)

lemma poll_subreddit_empty_fetch:
  assumes "probe pf subreddit s = (Inr True, s1)"
    and "fetch_posts pf (subreddit @ ''/new'') 25 None s1 = (Inr [], s2)"
  shows "poll_subreddit pf subreddit s = (Some IndexError, s2)"
  using assms
  by (simp add: poll_subreddit_def relay_new_posts_def split: option.splits)

subsection \<open>The concrete relay\<close>

lemma int36_digit:
  "int36 ''1'' = Some 1" "int36 ''2'' = Some 2" "int36 ''3'' = Some 3" "int36 ''4'' = Some 4"
  "int36 ''5'' = Some 5"
  by (simp_all add: int36_def strip_def is_space_def number36_def digit36_def)

lemma probe_page: "probe (page ids) ''r/Python'' (watching w) = (Inr True, probed w)"
  by (cases w)
    (simp_all add: probe_def page_def probe_then_def head_response_def probed_def watching_def
      ready_def init_def issue_def Let_def)

lemma fetch_page:
  "length ids \<le> 25 \<Longrightarrow>
   fetch_posts (page ids) (''r/Python'' @ ''/new'') 25 None (probed w)
     = (Inr (map example_post ids), fetched w)"
  by (simp add: fetch_posts_def MAX_FETCH_RETRIES_def numeral_3_eq_3 page_def probe_then_def
      listing_response_def is_json_ok_def fetched_def probed_def watching_def ready_def
      init_def issue_def Let_def)

lemma fetch_unavailable:
  "fst (fetch_posts (probe_then ''4096'' unavailable) (''r/Python'' @ ''/new'') 25 None (probed w))
     = Inr []"
  by (simp add: fetch_posts_def MAX_FETCH_RETRIES_def numeral_3_eq_3 probe_then_def
      unavailable_def is_json_ok_def probed_def watching_def ready_def
      init_def issue_def sleep_def Let_def)

lemma watching_fields:
  "last_ids (watching w) ''r/Python'' = w" "messages (watching w) = []" "sent (watching w) = []"
  by (cases w; simp add: watching_def ready_def init_def messages_def)+

lemma poll_page_last_ids:
  "last_ids (snd (poll_subreddit (page [''4'', ''3'', ''2'']) ''r/Python'' (watching (Some 2))))
     ''r/Python'' = Some 4"
proof -
  have f: "fetch_posts (page [''4'', ''3'', ''2'']) (''r/Python'' @ ''/new'') 25 None (probed (Some 2))
     = (Inr (map example_post [''4'', ''3'', ''2'']), fetched (Some 2))"
    using fetch_page [of "[''4'', ''3'', ''2'']" "Some 2"] by simp
  have p: "poll_subreddit (page [''4'', ''3'', ''2'']) ''r/Python'' (watching (Some 2))
     = relay_new_posts ''r/Python'' (map example_post [''4'', ''3'', ''2'']) (fetched (Some 2))"
    using f by (simp add: poll_subreddit_def probe_page)
  have w: "last_ids (fetched (Some 2)) ''r/Python'' = Some 2"
    by (simp add: fetched_def probed_def watching_def ready_def init_def)
  have d: "map (\<lambda>p. int36 (post_id p)) (map example_post [''4'', ''3'', ''2'']) = map Some [4, 3, 2]"
    by (simp add: example_post_def int36_digit)
  from relay_new_posts_warm [OF w _ d] show ?thesis
    unfolding p by (simp add: send_all_last_ids)
qed

subsection \<open>\<^verbatim>\<open>poll_new_posts\<close>: the watermark and the items sent\<close>

text \<open>
  Claim C1 says that the new items are sent in ascending order of their ordinals. They are
  sent in the order of the scan, most recent first: with the watermark 2 and the page
  \<open>4, 3, 2\<close> the channel gets the post 4 and then the post 3.
\<close>

theorem poll_order_counterexample:
  "messages (snd (poll_subreddit (page [''4'', ''3'', ''2'']) ''r/Python'' (watching (Some 2))))
     = [embed_of ''r/Python'' (embed_data_of (example_post ''4'')),
        embed_of ''r/Python'' (embed_data_of (example_post ''3''))]
   \<and> messages (snd (poll_subreddit (page [''4'', ''3'', ''2'']) ''r/Python'' (watching (Some 2))))
     \<noteq> [embed_of ''r/Python'' (embed_data_of (example_post ''3'')),
        embed_of ''r/Python'' (embed_data_of (example_post ''4''))]"
proof -
  have f: "last_ids (fetched (Some 2)) ''r/Python'' = Some 2" "sent (fetched (Some 2)) = []"
    by (simp_all add: fetched_def probed_def watching_def ready_def init_def)
  have "messages (snd (poll_subreddit (page [''4'', ''3'', ''2'']) ''r/Python'' (watching (Some 2))))
     = [embed_of ''r/Python'' (embed_data_of (example_post ''4'')),
        embed_of ''r/Python'' (embed_data_of (example_post ''3''))]"
    using fetch_page [of "[''4'', ''3'', ''2'']" "Some 2"]
    by (simp add: poll_subreddit_def probe_page relay_new_posts_def f example_post_def
        int36_digit send_def messages_def)
  then show ?thesis
    by (simp add: embed_of_def embed_data_of_def example_post_def)
qed

text \<open>
  Claim C1, amended. For a topic with the watermark \<open>W\<close>, a cycle whose probe reports a
  change and whose fetch returns a non-empty page, sorted most recent first (every id
  decodes, the ordinals \<open>ns\<close> descend), completes and sends exactly the posts of the page
  whose ordinal is strictly greater than \<open>W\<close>, one message each, in the order of the page,
  that is in descending order of the ordinals; the watermark becomes the ordinal of the
  first post.
\<close>

theorem poll_emits_newer_in_page_order:
  assumes "probe pf subreddit s = (Inr True, s1)"
    and "fetch_posts pf (subreddit @ ''/new'') 25 None s1 = (Inr posts, s2)"
    and "posts \<noteq> []"
    and "last_ids s subreddit = Some W"
    and "map (\<lambda>p. int36 (post_id p)) posts = map Some ns"
    and "sorted_wrt (\<ge>) ns"
  shows "\<exists>s'. poll_subreddit pf subreddit s = (None, s')
           \<and> messages s' = messages s
                @ map (\<lambda>p. embed_of subreddit (embed_data_of p)) (filter (newer_than W) posts)
           \<and> last_ids s' subreddit = Some (hd ns)"
proof -
  from probe_frame [OF assms(1)] have s1: "last_ids s1 = last_ids s" "sent s1 = sent s"
    by (metis state.select_convs state.update_convs state.surjective)+
  from fetch_posts_frame [OF assms(2)] have s2: "last_ids s2 = last_ids s1" "sent s2 = sent s1"
    by (metis state.select_convs state.update_convs state.surjective)+
  from s1 s2 assms(4) have w: "last_ids s2 subreddit = Some W" by simp
  from s1 s2 have m: "messages s2 = messages s" by (simp add: messages_def)
  have "poll_subreddit pf subreddit s = relay_new_posts subreddit posts s2"
    using assms(1,2) by (simp add: poll_subreddit_def)
  with relay_new_posts_warm [OF w assms(3,5,6)] m show ?thesis
    by (simp add: send_all_messages send_all_last_ids messages_last_ids_update comp_def)
qed

theorem poll_emits_newer_in_page_order_witness:
  "messages (snd (poll_subreddit (page [''4'', ''3'', ''2'']) ''r/Python'' (watching (Some 2))))
     = [embed_of ''r/Python'' (embed_data_of (example_post ''4'')),
        embed_of ''r/Python'' (embed_data_of (example_post ''3''))]
   \<and> last_ids (snd (poll_subreddit (page [''4'', ''3'', ''2'']) ''r/Python'' (watching (Some 2))))
        ''r/Python'' = Some 4"
proof -
  have d: "map (\<lambda>p. int36 (post_id p)) (map example_post [''4'', ''3'', ''2'']) = map Some [4, 3, 2]"
    by (simp add: example_post_def int36_digit)
  have f: "fetch_posts (page [''4'', ''3'', ''2'']) (''r/Python'' @ ''/new'') 25 None (probed (Some 2))
     = (Inr (map example_post [''4'', ''3'', ''2'']), fetched (Some 2))"
    using fetch_page [of "[''4'', ''3'', ''2'']" "Some 2"] by simp
  from poll_emits_newer_in_page_order [OF probe_page f _ watching_fields(1) d]
  show ?thesis
    by (auto simp: watching_fields newer_than_def example_post_def int36_digit)
qed

text \<open>
  Claim C2. For a topic with no watermark, a cycle whose probe reports a change and whose
  fetch returns a non-empty page completes, sends nothing, and sets the watermark to the
  decoded ordinal of the first post of the page.
\<close>

theorem poll_cold_start:
  assumes "probe pf subreddit s = (Inr True, s1)"
    and "fetch_posts pf (subreddit @ ''/new'') 25 None s1 = (Inr (p # ps), s2)"
    and "last_ids s subreddit = None"
    and "int36 (post_id p) = Some n"
  shows "\<exists>s'. poll_subreddit pf subreddit s = (None, s')
           \<and> sent s' = sent s \<and> last_ids s' subreddit = Some n"
proof -
  from probe_frame [OF assms(1)] have s1: "last_ids s1 = last_ids s" "sent s1 = sent s"
    by (metis state.select_convs state.update_convs state.surjective)+
  from fetch_posts_frame [OF assms(2)] have s2: "last_ids s2 = last_ids s1" "sent s2 = sent s1"
    by (metis state.select_convs state.update_convs state.surjective)+
  from s1 s2 assms(3) have "last_ids s2 subreddit = None" by simp
  with assms(1,2,4) s1 s2 show ?thesis
    by (simp add: poll_subreddit_def relay_new_posts_def)
qed

theorem poll_cold_start_witness:
  "fst (poll_subreddit (page [''2'', ''1'']) ''r/Python'' (watching None)) = None
   \<and> sent (snd (poll_subreddit (page [''2'', ''1'']) ''r/Python'' (watching None))) = []
   \<and> last_ids (snd (poll_subreddit (page [''2'', ''1'']) ''r/Python'' (watching None))) ''r/Python''
       = Some 2"
proof -
  have f: "fetch_posts (page [''2'', ''1'']) (''r/Python'' @ ''/new'') 25 None (probed None)
     = (Inr (example_post ''2'' # [example_post ''1'']), fetched None)"
    using fetch_page [of "[''2'', ''1'']" None] by simp
  have d: "int36 (post_id (example_post ''2'')) = Some 2"
    by (simp add: example_post_def int36_digit)
  from poll_cold_start [OF probe_page f watching_fields(1) d]
  show ?thesis
    by (auto simp: watching_fields)
qed

text \<open>
  Claim C3 says that the watermark never decreases, whatever the ordinals of the page.
  With the watermark 5 and a page whose only post has the ordinal 3, the cycle completes
  and the watermark is 3.
\<close>

theorem watermark_decreases_counterexample:
  "last_ids (watching (Some 5)) ''r/Python'' = Some 5
   \<and> fst (poll_subreddit (page [''3'']) ''r/Python'' (watching (Some 5))) = None
   \<and> last_ids (snd (poll_subreddit (page [''3'']) ''r/Python'' (watching (Some 5)))) ''r/Python''
       = Some 3"
proof -
  have f: "last_ids (fetched (Some 5)) ''r/Python'' = Some 5"
    by (simp add: fetched_def probed_def watching_def ready_def init_def)
  show ?thesis
    using fetch_page [of "[''3'']" "Some 5"]
    by (simp add: watching_fields poll_subreddit_def probe_page relay_new_posts_def f
        example_post_def int36_digit)
qed

text \<open>
  Claim C3, amended. For a topic with the watermark \<open>W\<close>, after a cycle (completed,
  skipped or ended by an exception) the topic still has a watermark \<open>W'\<close>, and it is
  either \<open>W\<close> or the decoded ordinal of the first post of the page that was fetched.
  Whenever the cycle completes on a fetched non-empty page whose first post has the
  ordinal \<open>n\<close>, the watermark is rewritten to \<open>n\<close>; and the cycle does complete when
  \<open>n \<le> W\<close>. So the watermark is at least \<open>W\<close> whenever the first ordinal is, and it
  decreases when the first post of the page is older than \<open>W\<close>.
\<close>

theorem watermark_after_cycle:
  assumes "last_ids s subreddit = Some W"
    and "poll_subreddit pf subreddit s = (e, s')"
  shows "\<exists>W'. last_ids s' subreddit = Some W'
           \<and> (W' = W
              \<or> (\<exists>s1 s2 p ps. probe pf subreddit s = (Inr True, s1)
                    \<and> fetch_posts pf (subreddit @ ''/new'') 25 None s1 = (Inr (p # ps), s2)
                    \<and> int36 (post_id p) = Some W'))
           \<and> (\<forall>s1 s2 p ps n. probe pf subreddit s = (Inr True, s1)
                    \<and> fetch_posts pf (subreddit @ ''/new'') 25 None s1 = (Inr (p # ps), s2)
                    \<and> int36 (post_id p) = Some n
                 \<longrightarrow> (e = None \<longrightarrow> W' = n) \<and> (n \<le> W \<longrightarrow> e = None \<and> W' = n))"
proof -
  obtain r s1 where p: "probe pf subreddit s = (r, s1)" by (cases "probe pf subreddit s")
  from probe_frame [OF p] have s1: "last_ids s1 = last_ids s"
    by (metis state.select_convs(6) state.update_convs(9) state.update_convs(5) state.surjective)
  show ?thesis
  proof (cases r)
    case (Inl err)
    with p assms s1 show ?thesis by (auto simp: poll_subreddit_def)
  next
    case (Inr changed)
    show ?thesis
    proof (cases changed)
      case False
      with Inr p assms s1 show ?thesis by (auto simp: poll_subreddit_def)
    next
      case True
      obtain r2 s2 where f: "fetch_posts pf (subreddit @ ''/new'') 25 None s1 = (r2, s2)"
        by (cases "fetch_posts pf (subreddit @ ''/new'') 25 None s1")
      from fetch_posts_frame [OF f] have s2: "last_ids s2 = last_ids s1"
        by (metis state.select_convs(6) state.update_convs(9) state.update_convs(8) state.surjective)
      from s1 s2 assms(1) have w2: "last_ids s2 subreddit = Some W" by simp
      show ?thesis
      proof (cases r2)
        case (Inl err)
        with True Inr p f assms s1 s2 show ?thesis by (auto simp: poll_subreddit_def)
      next
        case posts: (Inr posts)
        with True Inr p f assms(2)
        have rel: "relay_new_posts subreddit posts s2 = (e, s')"
          by (simp add: poll_subreddit_def)
        from relay_new_posts_last_ids [OF rel] w2
        have a: "last_ids s' subreddit = Some W
           \<or> (\<exists>q qs n. posts = q # qs \<and> int36 (post_id q) = Some n \<and> last_ids s' subreddit = Some n)"
          by simp
        then obtain W' where W': "last_ids s' subreddit = Some W'" by auto
        have first: "W' = W
              \<or> (\<exists>s1 s2 p ps. probe pf subreddit s = (Inr True, s1)
                    \<and> fetch_posts pf (subreddit @ ''/new'') 25 None s1 = (Inr (p # ps), s2)
                    \<and> int36 (post_id p) = Some W')"
          using a W' True Inr p f posts by auto
        have second: "(e = None \<longrightarrow> W' = n) \<and> (n \<le> W \<longrightarrow> e = None \<and> W' = n)"
          if h: "probe pf subreddit s = (Inr True, t1)"
            "fetch_posts pf (subreddit @ ''/new'') 25 None t1 = (Inr (q # qs), t2)"
            "int36 (post_id q) = Some n" for t1 t2 q qs n
        proof -
          from h(1) p have "t1 = s1" by simp
          with h(2) f posts have ps: "posts = q # qs" by simp
          have c1: "W' = n" if "e = None"
            using relay_new_posts_rewrites [OF rel [unfolded ps \<open>e = None\<close>] h(3)] W' by simp
          have c2: "e = None" if "n \<le> W"
            using relay_new_posts_known_first [OF w2 h(3) that, of qs] rel ps by simp
          from c1 c2 show ?thesis by blast
        qed
        from W' first second show ?thesis by blast
      qed
    qed
  qed
qed

theorem watermark_after_cycle_witness:
  "last_ids (watching (Some 5)) ''r/Python'' = Some 5
   \<and> last_ids (snd (poll_subreddit (page [''3'']) ''r/Python'' (watching (Some 5)))) ''r/Python''
        = Some 3
   \<and> last_ids (watching (Some 2)) ''r/Python'' = Some 2
   \<and> last_ids (snd (poll_subreddit (page [''4'', ''3'', ''2'']) ''r/Python'' (watching (Some 2))))
        ''r/Python'' = Some 4"
proof -
  have f: "fetch_posts (page [''3'']) (''r/Python'' @ ''/new'') 25 None (probed (Some 5))
     = (Inr (example_post ''3'' # []), fetched (Some 5))"
    using fetch_page [of "[''3'']" "Some 5"] by simp
  have d: "int36 (post_id (example_post ''3'')) = Some 3"
    by (simp add: example_post_def int36_digit)
  from watermark_after_cycle [where s = "watching (Some 5)" and subreddit = "''r/Python''"
      and W = 5 and pf = "page [''3'']", OF watching_fields(1) surjective_pairing]
  obtain W' where W': "last_ids (snd (poll_subreddit (page [''3'']) ''r/Python'' (watching (Some 5))))
        ''r/Python'' = Some W'"
    and rw: "\<forall>s1 s2 p ps n. probe (page [''3'']) ''r/Python'' (watching (Some 5)) = (Inr True, s1)
                    \<and> fetch_posts (page [''3'']) (''r/Python'' @ ''/new'') 25 None s1 = (Inr (p # ps), s2)
                    \<and> int36 (post_id p) = Some n
                 \<longrightarrow> (fst (poll_subreddit (page [''3'']) ''r/Python'' (watching (Some 5))) = None
                        \<longrightarrow> W' = n)
                   \<and> (n \<le> 5 \<longrightarrow> fst (poll_subreddit (page [''3'']) ''r/Python'' (watching (Some 5))) = None
                        \<and> W' = n)"
    by blast
  from rw probe_page [of "[''3'']" "Some 5"] f d have "W' = 3" by fastforce
  with W' poll_page_last_ids show ?thesis
    by (simp add: watching_fields)
qed

text \<open>
  Claim C4 says that an empty result of the fetch is not indexed. \<^verbatim>\<open>posts[0]\<close> of line 229
  is not guarded: when the platform answers the probe and then fails three times, so that
  \<^verbatim>\<open>fetch_posts\<close> returns the empty list, the cycle raises \<^verbatim>\<open>IndexError\<close>, with a watermark
  and without one.
\<close>

theorem poll_empty_fetch_raises:
  "fst (poll_subreddit (probe_then ''4096'' unavailable) ''r/Python'' (watching (Some 2)))
     = Some IndexError
   \<and> fst (poll_subreddit (probe_then ''4096'' unavailable) ''r/Python'' (watching None))
     = Some IndexError"
proof -
  have "fst (poll_subreddit (probe_then ''4096'' unavailable) ''r/Python'' (watching w))
     = Some IndexError" for w
  proof -
    have p: "probe (probe_then ''4096'' unavailable) ''r/Python'' (watching w) = (Inr True, probed w)"
      by (cases w)
        (simp_all add: probe_def probe_then_def head_response_def probed_def watching_def
          ready_def init_def issue_def Let_def)
    obtain s2 where f: "fetch_posts (probe_then ''4096'' unavailable) (''r/Python'' @ ''/new'') 25 None
        (probed w) = (Inr [], s2)"
      using fetch_unavailable [of w]
      by (cases "fetch_posts (probe_then ''4096'' unavailable) (''r/Python'' @ ''/new'') 25 None (probed w)")
        auto
    from poll_subreddit_empty_fetch [OF p f] show ?thesis by simp
  qed
  then show ?thesis by simp
qed

subsection \<open>The tokens: what every turn of a loop keeps\<close>

lemma tokens_keptI:
  assumes "client_auth s' = client_auth s" and "refresh_token s' = refresh_token s"
    and "requests s' = requests s @ new"
    and "list_all (\<lambda>q. is_fetch (snd q)
             \<or> (case client_auth s of
                   None \<Rightarrow> False
                 | Some auth \<Rightarrow>
                     (case refresh_token s of
                        None \<Rightarrow> False
                      | Some rt \<Rightarrow> snd q = refresh_post auth rt))) new"
  shows "tokens_kept s s'"
  using assms by (simp add: tokens_kept_def)

lemma tokens_keptD:
  assumes "tokens_kept s s'"
  obtains new where "client_auth s' = client_auth s" and "refresh_token s' = refresh_token s"
    and "requests s' = requests s @ new"
    and "list_all (\<lambda>q. is_fetch (snd q)
             \<or> (case client_auth s of
                   None \<Rightarrow> False
                 | Some auth \<Rightarrow>
                     (case refresh_token s of
                        None \<Rightarrow> False
                      | Some rt \<Rightarrow> snd q = refresh_post auth rt))) new"
proof -
  from assms have "requests s' = requests s @ drop (length (requests s)) (requests s')"
    by (metis append_take_drop_id tokens_kept_def)
  with assms that show thesis by (simp add: tokens_kept_def)
qed

lemma tokens_kept_refl: "tokens_kept s s"
  by (simp add: tokens_kept_def)

lemma tokens_kept_trans:
  assumes "tokens_kept s s1" and "tokens_kept s1 s2"
  shows "tokens_kept s s2"
proof -
  from assms(1) obtain n1 where a: "client_auth s1 = client_auth s"
    "refresh_token s1 = refresh_token s" "requests s1 = requests s @ n1"
    "list_all (\<lambda>q. is_fetch (snd q)
             \<or> (case client_auth s of
                   None \<Rightarrow> False
                 | Some auth \<Rightarrow>
                     (case refresh_token s of
                        None \<Rightarrow> False
                      | Some rt \<Rightarrow> snd q = refresh_post auth rt))) n1"
    by (rule tokens_keptD)
  from assms(2) obtain n2 where b: "client_auth s2 = client_auth s1"
    "refresh_token s2 = refresh_token s1" "requests s2 = requests s1 @ n2"
    "list_all (\<lambda>q. is_fetch (snd q)
             \<or> (case client_auth s1 of
                   None \<Rightarrow> False
                 | Some auth \<Rightarrow>
                     (case refresh_token s1 of
                        None \<Rightarrow> False
                      | Some rt \<Rightarrow> snd q = refresh_post auth rt))) n2"
    by (rule tokens_keptD)
  from a(3) b(3) have r: "requests s2 = requests s @ (n1 @ n2)" by simp
  show ?thesis
  proof (rule tokens_keptI [OF _ _ r])
    show "client_auth s2 = client_auth s" using a b by simp
    show "refresh_token s2 = refresh_token s" using a b by simp
    show "list_all (\<lambda>q. is_fetch (snd q)
             \<or> (case client_auth s of
                   None \<Rightarrow> False
                 | Some auth \<Rightarrow>
                     (case refresh_token s of
                        None \<Rightarrow> False
                      | Some rt \<Rightarrow> snd q = refresh_post auth rt))) (n1 @ n2)"
      using a b by (simp cong: option.case_cong)
  qed
qed

lemma tokens_kept_same_requests:
  "client_auth s' = client_auth s \<Longrightarrow> refresh_token s' = refresh_token s \<Longrightarrow>
   requests s' = requests s \<Longrightarrow> tokens_kept s s'"
  by (simp add: tokens_kept_def)

lemma tokens_kept_issue: "is_fetch r \<Longrightarrow> tokens_kept s (issue r s)"
  by (simp add: tokens_kept_def issue_def)

lemma tokens_kept_fetch_attempts: "tokens_kept s (snd (fetch_attempts pf url amount params k s))"
proof (induction k arbitrary: s)
  case 0
  show ?case by (simp add: tokens_kept_refl)
next
  case (Suc k)
  show ?case
  proof (cases "headers s")
    case None
    then show ?thesis by (simp add: tokens_kept_refl)
  next
    case (Some h)
    have i: "tokens_kept s (issue (Get url h params) s)" by (simp add: tokens_kept_issue)
    show ?thesis
    proof (cases "is_json_ok (pf (length (requests s)))")
      case True
      with Some i show ?thesis by (simp add: Let_def split: body.splits)
    next
      case False
      have "tokens_kept (issue (Get url h params) s) (sleep 3 (issue (Get url h params) s))"
        by (simp add: tokens_kept_same_requests sleep_def)
      from tokens_kept_trans [OF tokens_kept_trans [OF i this] Suc.IH]
      show ?thesis using Some False by (simp add: Let_def)
    qed
  qed
qed

lemma tokens_kept_fetch_posts: "tokens_kept s (snd (fetch_posts pf route amount params s))"
  by (simp add: fetch_posts_def tokens_kept_refl tokens_kept_fetch_attempts)

lemma tokens_kept_probe: "tokens_kept s (snd (probe pf subreddit s))"
  by (auto simp: probe_def Let_def tokens_kept_def issue_def split: option.splits)

lemma send_all_frame:
  "client_auth (send_all ms s) = client_auth s \<and> refresh_token (send_all ms s) = refresh_token s
   \<and> requests (send_all ms s) = requests s \<and> channel_pins (send_all ms s) = channel_pins s
   \<and> pin_log (send_all ms s) = pin_log s"
  by (induction ms arbitrary: s) (auto simp: send_def)

lemma tokens_kept_relay: "tokens_kept s (snd (relay_new_posts subreddit posts s))"
  by (auto simp: relay_new_posts_def tokens_kept_refl send_all_frame
      intro!: tokens_kept_same_requests split: option.splits sum.splits list.splits)

lemma tokens_kept_poll_subreddit: "tokens_kept s (snd (poll_subreddit pf subreddit s))"
proof -
  obtain r s1 where p: "probe pf subreddit s = (r, s1)" by (cases "probe pf subreddit s")
  from tokens_kept_probe [of s pf subreddit] p have k1: "tokens_kept s s1" by simp
  obtain r2 s2 where f: "fetch_posts pf (subreddit @ ''/new'') 25 None s1 = (r2, s2)"
    by (cases "fetch_posts pf (subreddit @ ''/new'') 25 None s1")
  from tokens_kept_fetch_posts [of s1 pf "subreddit @ ''/new''" 25 None] f
  have k2: "tokens_kept s1 s2" by simp
  from tokens_kept_trans [OF k1 k2] have k12: "tokens_kept s s2" .
  from tokens_kept_trans [OF k12 tokens_kept_relay]
  have k3: "tokens_kept s (snd (relay_new_posts subreddit posts s2))" for posts .
  show ?thesis
    using p f k1 k12 k3
    by (auto simp: poll_subreddit_def split: sum.splits bool.splits)
qed

lemma tokens_kept_poll_subreddits: "tokens_kept s (snd (poll_subreddits pf subs s))"
proof (induction subs arbitrary: s)
  case Nil
  show ?case by (simp add: tokens_kept_refl)
next
  case (Cons subreddit rest)
  obtain e s1 where p: "poll_subreddit pf subreddit s = (e, s1)"
    by (cases "poll_subreddit pf subreddit s")
  from tokens_kept_poll_subreddit [of s pf subreddit] p have k: "tokens_kept s s1" by simp
  show ?case
    using p k tokens_kept_trans [OF k Cons.IH]
    by (cases e) auto
qed

lemma tokens_kept_sleep: "tokens_kept s (sleep n s)" "tokens_kept s (sleep_micro us s)"
  by (simp_all add: tokens_kept_same_requests sleep_def sleep_micro_def)

lemma tokens_kept_poll_new_posts_cycle:
  "tokens_kept s (snd (poll_new_posts_cycle pf delay subs s))"
  unfolding poll_new_posts_cycle_def
  by (rule tokens_kept_trans [OF tokens_kept_sleep(1) tokens_kept_poll_subreddits])

lemma tokens_kept_send: "tokens_kept s (snd (send m s))"
  by (simp add: tokens_kept_same_requests send_def)

lemma tokens_kept_send_top_posts:
  "tokens_kept s (snd (send_top_posts pf subreddit content time s))"
proof -
  obtain r s1 where f: "fetch_posts pf (subreddit @ ''/top'') 5 (Some [(''t'', time)]) s = (r, s1)"
    by (cases "fetch_posts pf (subreddit @ ''/top'') 5 (Some [(''t'', time)]) s")
  from tokens_kept_fetch_posts [of s pf "subreddit @ ''/top''" 5 "Some [(''t'', time)]"] f
  have k: "tokens_kept s s1" by simp
  from tokens_kept_trans [OF k tokens_kept_send] have k2: "tokens_kept s (snd (send m s1))" for m .
  show ?thesis
    using f k k2 by (auto simp: send_top_posts_def case_prod_beta split: sum.splits)
qed

lemma tokens_kept_pin: "tokens_kept s (pin m s)" "tokens_kept s (unpin m s)"
  by (simp_all add: tokens_kept_same_requests pin_def unpin_def)

lemma tokens_kept_unpin_oldest: "tokens_kept s (snd (unpin_oldest pins s))"
proof (induction pins s rule: unpin_oldest.induct)
  case (1 pins s)
  show ?case
  proof (cases "length pins \<ge> 5")
    case True
    from tokens_kept_trans [OF tokens_kept_pin(2) "1.IH" [OF True]]
    show ?thesis using True by (subst unpin_oldest.simps) simp
  next
    case False
    then show ?thesis by (subst unpin_oldest.simps) (simp add: tokens_kept_refl)
  qed
qed

lemma tokens_kept_digest_subreddit: "tokens_kept s (snd (digest_subreddit pf subreddit s))"
proof -
  let ?c = "Some (''This week'' @ [CHR 0x27] @ ''s top '' @ subreddit @ '' posts have arrived!'')"
  obtain r s1 where t: "send_top_posts pf subreddit ?c ''week'' s = (r, s1)"
    by (cases "send_top_posts pf subreddit ?c ''week'' s")
  from tokens_kept_send_top_posts [of s pf subreddit ?c "''week''"] t
  have k: "tokens_kept s s1" by simp
  from tokens_kept_trans [OF tokens_kept_trans [OF k tokens_kept_unpin_oldest] tokens_kept_pin(1)]
  have k2: "tokens_kept s (pin m (snd (unpin_oldest pins s1)))" for m pins .
  show ?thesis
    using t k k2 [of _ "channel_pins s1"]
    by (auto simp: digest_subreddit_def case_prod_beta split: sum.splits)
qed

lemma tokens_kept_digest_subreddits: "tokens_kept s (snd (digest_subreddits pf subs s))"
proof (induction subs arbitrary: s)
  case Nil
  show ?case by (simp add: tokens_kept_refl)
next
  case (Cons subreddit rest)
  obtain e s1 where p: "digest_subreddit pf subreddit s = (e, s1)"
    by (cases "digest_subreddit pf subreddit s")
  from tokens_kept_digest_subreddit [of s pf subreddit] p have k: "tokens_kept s s1" by simp
  show ?case
    using p k tokens_kept_trans [OF k Cons.IH]
    by (cases e) auto
qed

lemma tokens_kept_poll_top_weekly_posts_cycle:
  "tokens_kept s (snd (poll_top_weekly_posts_cycle pf now subs s))"
  using tokens_kept_trans [OF tokens_kept_sleep(2) tokens_kept_digest_subreddits]
  by (auto simp: poll_top_weekly_posts_cycle_def tokens_kept_refl split: sum.splits)

lemma refresh_access_token_cases:
  "snd (refresh_access_token pf s) = s
   \<or> (\<exists>auth rt. client_auth s = Some auth \<and> refresh_token s = Some rt
        \<and> (snd (refresh_access_token pf s) = issue (refresh_post auth rt) s
            \<or> (\<exists>a. snd (refresh_access_token pf s)
                   = (issue (refresh_post auth rt) s)\<lparr>access_token := Some a,
                        headers := Some (bearer_headers a)\<rparr>)))"
proof (cases "client_auth s")
  case None
  then show ?thesis by (simp add: refresh_access_token_def)
next
  case auth: (Some auth)
  show ?thesis
  proof (cases "refresh_token s")
    case None
    with auth show ?thesis by (simp add: refresh_access_token_def)
  next
    case rt: (Some rt)
    show ?thesis
    proof (cases "content_type (pf (length (requests s))) \<noteq> ''application/json''")
      case True
      with auth rt show ?thesis
        by (simp add: refresh_access_token_def refresh_post_def Let_def)
    next
      case False
      with auth rt show ?thesis
        by (cases "body (pf (length (requests s)))")
          (auto simp: refresh_access_token_def refresh_post_def Let_def split: option.splits)
    qed
  qed
qed

lemma tokens_kept_refresh_access_token: "tokens_kept s (snd (refresh_access_token pf s))"
  using refresh_access_token_cases [of pf s]
  by (auto simp: tokens_kept_def issue_def)

lemma refresh_access_token_frame:
  "\<exists>a h rq. snd (refresh_access_token pf s) = s\<lparr>access_token := a, headers := h, requests := rq\<rparr>"
proof -
  have "snd (refresh_access_token pf s)
      = s\<lparr>access_token := access_token (snd (refresh_access_token pf s)),
           headers := headers (snd (refresh_access_token pf s)),
           requests := requests (snd (refresh_access_token pf s))\<rparr>"
    using refresh_access_token_cases [of pf s]
    by (auto simp: issue_def)
  then show ?thesis by blast
qed

lemma tokens_kept_turn_of: "tokens_kept s (snd (turn_of pf cfg t s))"
  by (cases t)
    (simp_all add: turn_of_def tokens_kept_refresh_access_token
      tokens_kept_poll_new_posts_cycle tokens_kept_poll_top_weekly_posts_cycle)

lemma tokens_kept_run: "tokens_kept s (run pf cfg ts s)"
proof (induction ts arbitrary: s)
  case Nil
  show ?case by (simp add: tokens_kept_refl)
next
  case (Cons t ts)
  from tokens_kept_trans [OF tokens_kept_turn_of Cons.IH] show ?case by simp
qed

lemma refresh_access_token_post:
  assumes "client_auth s = Some auth" and "refresh_token s = Some rt"
  shows "\<exists>a h. snd (refresh_access_token pf s)
           = s\<lparr>access_token := a, headers := h,
                requests := requests s @ [(clock s, refresh_post auth rt)]\<rparr>"
proof -
  have "snd (refresh_access_token pf s)
      = s\<lparr>access_token := access_token (snd (refresh_access_token pf s)),
           headers := headers (snd (refresh_access_token pf s)),
           requests := requests s @ [(clock s, refresh_post auth rt)]\<rparr>"
    using refresh_access_token_cases [of pf s] assms
    by (auto simp: refresh_access_token_def refresh_post_def issue_def Let_def
        split: body.splits option.splits)
  then show ?thesis by blast
qed

lemma refresh_access_token_success:
  assumes "client_auth s = Some auth" and "refresh_token s = Some rt"
    and "content_type (pf (length (requests s))) = ''application/json''"
    and "body (pf (length (requests s))) = Tokens c"
    and "c ''access_token'' = Some a"
  shows "fst (refresh_access_token pf s) = None
       \<and> access_token (snd (refresh_access_token pf s)) = Some a
       \<and> headers (snd (refresh_access_token pf s)) = Some (bearer_headers a)"
  using assms by (simp add: refresh_access_token_def Let_def)

text \<open>
  Claim C10. With the client identity and the refresh token \<open>rt\<close> assigned, one execution
  of \<^verbatim>\<open>refresh_access_token\<close> posts the refresh request carrying \<open>rt\<close> and changes nothing
  but the access token, the headers and the list of requests; on a JSON answer that has
  an access token \<open>a\<close> it returns with \<open>a\<close> stored and the headers derived from \<open>a\<close>. After
  any sequence of turns of the three loops the stored refresh token is still \<open>rt\<close>, the
  requests issued before are still there, and every request issued meanwhile is a probe,
  a listing request, or the refresh request carrying \<open>rt\<close>.
\<close>

theorem refresh_keeps_refresh_token:
  assumes "client_auth s = Some auth" and "refresh_token s = Some rt"
  shows "(\<exists>a h. snd (refresh_access_token pf s)
             = s\<lparr>access_token := a, headers := h,
                  requests := requests s @ [(clock s, refresh_post auth rt)]\<rparr>)
       \<and> (\<forall>c a. content_type (pf (length (requests s))) = ''application/json''
                \<and> body (pf (length (requests s))) = Tokens c \<and> c ''access_token'' = Some a
             \<longrightarrow> fst (refresh_access_token pf s) = None
                \<and> access_token (snd (refresh_access_token pf s)) = Some a
                \<and> headers (snd (refresh_access_token pf s)) = Some (bearer_headers a))
       \<and> refresh_token (run pf cfg turns s) = Some rt
       \<and> take (length (requests s)) (requests (run pf cfg turns s)) = requests s
       \<and> list_all (\<lambda>q. is_fetch (snd q) \<or> snd q = refresh_post auth rt)
            (drop (length (requests s)) (requests (run pf cfg turns s)))"
proof -
  have 1: "\<exists>a h. snd (refresh_access_token pf s)
             = s\<lparr>access_token := a, headers := h,
                  requests := requests s @ [(clock s, refresh_post auth rt)]\<rparr>"
    by (rule refresh_access_token_post [OF assms])
  have 2: "\<forall>c a. content_type (pf (length (requests s))) = ''application/json''
                \<and> body (pf (length (requests s))) = Tokens c \<and> c ''access_token'' = Some a
             \<longrightarrow> fst (refresh_access_token pf s) = None
                \<and> access_token (snd (refresh_access_token pf s)) = Some a
                \<and> headers (snd (refresh_access_token pf s)) = Some (bearer_headers a)"
    using refresh_access_token_success [OF assms] by blast
  have 3: "refresh_token (run pf cfg turns s) = Some rt
       \<and> take (length (requests s)) (requests (run pf cfg turns s)) = requests s
       \<and> list_all (\<lambda>q. is_fetch (snd q) \<or> snd q = refresh_post auth rt)
            (drop (length (requests s)) (requests (run pf cfg turns s)))"
    using tokens_kept_run [of s pf cfg turns] assms by (simp add: tokens_kept_def)
  from 1 2 3 show ?thesis by blast
qed

theorem refresh_keeps_refresh_token_witness:
  "refresh_token (run (\<lambda>k. token_response ''new'') example_config [RefreshTurn, RefreshTurn] (ready []))
     = Some ''ref''
   \<and> access_token (run (\<lambda>k. token_response ''new'') example_config [RefreshTurn, RefreshTurn] (ready []))
     = Some ''new''
   \<and> headers (snd (refresh_access_token (\<lambda>k. token_response ''new'') (ready [])))
     = Some (bearer_headers ''new'')
   \<and> map snd (requests (run (\<lambda>k. token_response ''new'') example_config [RefreshTurn, RefreshTurn] (ready [])))
     = [refresh_post (''id'', ''secret'') ''ref'', refresh_post (''id'', ''secret'') ''ref'']"
proof -
  have c: "client_auth (ready []) = Some (''id'', ''secret'')" "refresh_token (ready []) = Some ''ref''"
    by (simp_all add: ready_def init_def)
  have r: "content_type (token_response ''new'') = ''application/json''"
    "body (token_response ''new'') = Tokens [''access_token'' \<mapsto> ''new'']"
    by (simp_all add: token_response_def)
  from refresh_keeps_refresh_token [OF c, where pf = "\<lambda>k. token_response ''new''"
      and cfg = example_config and turns = "[RefreshTurn, RefreshTurn]"] r
  show ?thesis
    by (simp add: turn_of_def refresh_access_token_def token_response_def refresh_post_def
        ready_def init_def issue_def Let_def)
qed

subsection \<open>A failed \<^verbatim>\<open>get_tokens\<close>\<close>

text \<open>
  Without headers \<^verbatim>\<open>fetch_posts\<close> and the probe raise at \<^verbatim>\<open>self.headers\<close>, before any request;
  without a refresh token \<^verbatim>\<open>refresh_access_token\<close> raises before its request. So a turn of
  any of the three loops changes the clock at most.
\<close>

lemma fetch_posts_no_headers:
  "headers s = None \<Longrightarrow> snd (fetch_posts pf route amount params s) = s"
  by (simp add: fetch_posts_def MAX_FETCH_RETRIES_def numeral_3_eq_3)

lemma fetch_posts_no_headers_raises:
  "headers s = None \<Longrightarrow> \<exists>e. fst (fetch_posts pf route amount params s) = Inl e"
  by (simp add: fetch_posts_def MAX_FETCH_RETRIES_def numeral_3_eq_3)

lemma poll_subreddit_no_headers:
  "headers s = None \<Longrightarrow> poll_subreddit pf subreddit s = (Some AttributeError, s)"
  by (simp add: poll_subreddit_def probe_def)

lemma poll_subreddits_no_headers:
  "headers s = None \<Longrightarrow> snd (poll_subreddits pf subs s) = s"
  by (cases subs) (simp_all add: poll_subreddit_no_headers)

lemma digest_subreddit_no_headers:
  assumes "headers s = None"
  shows "\<exists>e. digest_subreddit pf subreddit s = (Some e, s)"
proof -
  let ?f = "fetch_posts pf (subreddit @ ''/top'') 5 (Some [(''t'', ''week'')]) s"
  from fetch_posts_no_headers_raises [OF assms] obtain e where "fst ?f = Inl e" by blast
  moreover from fetch_posts_no_headers [OF assms] have "snd ?f = s" .
  ultimately have "?f = (Inl e, s)" by (simp add: prod_eq_iff)
  then show ?thesis by (simp add: digest_subreddit_def send_top_posts_def)
qed

lemma digest_subreddits_no_headers:
  assumes "headers s = None"
  shows "snd (digest_subreddits pf subs s) = s"
proof (cases subs)
  case Nil
  then show ?thesis by simp
next
  case (Cons subreddit rest)
  from digest_subreddit_no_headers [OF assms] obtain e
    where "digest_subreddit pf subreddit s = (Some e, s)" by blast
  with Cons show ?thesis by simp
qed

lemma turn_of_no_headers:
  assumes "headers s = None" and "refresh_token s = None"
  shows "\<exists>c. snd (turn_of pf cfg t s) = s\<lparr>clock := c\<rparr>"
proof (cases t)
  case RefreshTurn
  have "snd (refresh_access_token pf s) = s"
    using assms(2) by (simp add: refresh_access_token_def split: option.splits)
  then have "snd (turn_of pf cfg t s) = s\<lparr>clock := clock s\<rparr>"
    by (simp add: turn_of_def RefreshTurn)
  then show ?thesis ..
next
  case NewPostsTurn
  have "headers (sleep (request_delay cfg) s) = None" using assms(1) by (simp add: sleep_def)
  from poll_subreddits_no_headers [OF this]
  have "snd (turn_of pf cfg t s) = s\<lparr>clock := clock s + request_delay cfg * 1000000\<rparr>"
    by (simp add: turn_of_def NewPostsTurn poll_new_posts_cycle_def sleep_def)
  then show ?thesis ..
next
  case (TopWeeklyTurn now)
  show ?thesis
  proof (cases "until_monday now")
    case (Inl e)
    then have "snd (turn_of pf cfg t s) = s\<lparr>clock := clock s\<rparr>"
      by (simp add: turn_of_def TopWeeklyTurn poll_top_weekly_posts_cycle_def)
    then show ?thesis ..
  next
    case (Inr us)
    have "headers (sleep_micro (nat us) s) = None" using assms(1) by (simp add: sleep_micro_def)
    from digest_subreddits_no_headers [OF this] Inr
    have "snd (turn_of pf cfg t s) = s\<lparr>clock := clock s + nat us\<rparr>"
      by (simp add: turn_of_def TopWeeklyTurn poll_top_weekly_posts_cycle_def sleep_micro_def)
    then show ?thesis ..
  qed
qed

lemma run_no_headers:
  assumes "headers s = None" and "refresh_token s = None"
  shows "\<exists>c. run pf cfg turns s = s\<lparr>clock := c\<rparr>"
  using assms
proof (induction turns arbitrary: s)
  case Nil
  have "run pf cfg [] s = s\<lparr>clock := clock s\<rparr>" by simp
  then show ?case ..
next
  case (Cons t turns)
  from turn_of_no_headers [OF Cons.prems] obtain c
    where c: "snd (turn_of pf cfg t s) = s\<lparr>clock := c\<rparr>" by blast
  have "headers (s\<lparr>clock := c\<rparr>) = None" "refresh_token (s\<lparr>clock := c\<rparr>) = None"
    using Cons.prems by simp_all
  from Cons.IH [OF this] obtain c'
    where "run pf cfg turns (s\<lparr>clock := c\<rparr>) = s\<lparr>clock := c\<rparr>\<lparr>clock := c'\<rparr>"
    by blast
  with c have "run pf cfg (t # turns) s = s\<lparr>clock := c'\<rparr>" by simp
  then show ?case ..
qed

lemma get_tokens_failure:
  assumes "\<not> is_json_ok (pf (length (requests s)))"
  shows "get_tokens client_id secret pf s
       = (None,
          s\<lparr>client_auth := Some (client_id, secret),
            loaded := False,
            requests := requests s @
              [(clock s,
                Post (URL @ ''/api/v1/access_token'') [(''User-Agent'', Text USER_AGENT)]
                  (Some (client_id, secret))
                  [(''grant_type'', ''client_credentials''), (''duration'', ''permanent'')])]\<rparr>)"
  using assms by (simp add: get_tokens_def issue_def Let_def)

text \<open>
  Claim C7. When \<^verbatim>\<open>get_tokens\<close> runs with no headers and no refresh token assigned yet and
  its response is not a success (status other than 200, or a content type other than
  JSON), it returns with the cog removed and neither of them assigned. After it, whatever
  turns of the three loops run, the headers stay unassigned and the bootstrap request is
  the only request issued since: the loops issue no probe and no listing request.
\<close>

theorem failed_bootstrap_stops_fetching:
  assumes "headers s = None" and "refresh_token s = None"
    and "\<not> is_json_ok (pf (length (requests s)))"
  shows "fst (get_tokens client_id secret pf s) = None
       \<and> loaded (snd (get_tokens client_id secret pf s)) = False
       \<and> headers (run pf cfg turns (snd (get_tokens client_id secret pf s))) = None
       \<and> requests (run pf cfg turns (snd (get_tokens client_id secret pf s)))
           = requests s @
              [(clock s,
                Post (URL @ ''/api/v1/access_token'') [(''User-Agent'', Text USER_AGENT)]
                  (Some (client_id, secret))
                  [(''grant_type'', ''client_credentials''), (''duration'', ''permanent'')])]
       \<and> filter (\<lambda>q. is_fetch (snd q))
            (drop (length (requests s))
               (requests (run pf cfg turns (snd (get_tokens client_id secret pf s))))) = []"
proof -
  let ?s1 = "s\<lparr>client_auth := Some (client_id, secret),
            loaded := False,
            requests := requests s @
              [(clock s,
                Post (URL @ ''/api/v1/access_token'') [(''User-Agent'', Text USER_AGENT)]
                  (Some (client_id, secret))
                  [(''grant_type'', ''client_credentials''), (''duration'', ''permanent'')])]\<rparr>"
  have g: "get_tokens client_id secret pf s = (None, ?s1)"
    using assms(3) by (rule get_tokens_failure)
  have h: "headers ?s1 = None" "refresh_token ?s1 = None"
    using assms(1,2) by simp_all
  from run_no_headers [OF h] obtain c where c: "run pf cfg turns ?s1 = ?s1\<lparr>clock := c\<rparr>"
    by blast
  show ?thesis
    using assms(1) by (simp add: g c)
qed

theorem failed_bootstrap_stops_fetching_witness:
  "headers (init []) = None \<and> refresh_token (init []) = None
   \<and> loaded (snd (get_tokens ''id'' ''secret'' (\<lambda>k. unavailable) (init []))) = False
   \<and> map snd (requests (run (\<lambda>k. unavailable) example_config
         [NewPostsTurn, TopWeeklyTurn monday_half_past, RefreshTurn, NewPostsTurn]
         (snd (get_tokens ''id'' ''secret'' (\<lambda>k. unavailable) (init [])))))
       = [Post (URL @ ''/api/v1/access_token'') [(''User-Agent'', Text USER_AGENT)]
            (Some (''id'', ''secret''))
            [(''grant_type'', ''client_credentials''), (''duration'', ''permanent'')]]"
proof -
  have h: "headers (init []) = None" "refresh_token (init []) = None"
    "\<not> is_json_ok (unavailable)" "requests (init []) = []" "clock (init []) = 0"
    by (simp_all add: init_def unavailable_def is_json_ok_def)
  from failed_bootstrap_stops_fetching [where s = "init []" and pf = "\<lambda>k. unavailable"
      and client_id = "''id''" and secret = "''secret''" and cfg = example_config
      and turns = "[NewPostsTurn, TopWeeklyTurn monday_half_past, RefreshTurn, NewPostsTurn]",
      OF h(1) h(2) h(3)]
  show ?thesis by (simp add: h)
qed

subsection \<open>\<^verbatim>\<open>poll_top_weekly_posts\<close>: the pins\<close>

lemma filter_removeAll: "filter P (removeAll x ys) = filter (\<lambda>m. P m \<and> m \<noteq> x) ys"
  by (induction ys) auto

lemma unpin_oldest_result:
  "fst (unpin_oldest pins s) = take 4 pins
   \<and> pin_log (snd (unpin_oldest pins s)) = pin_log s @ map Unpin (rev (drop 4 pins))
   \<and> channel_pins (snd (unpin_oldest pins s))
       = filter (\<lambda>m. m \<notin> set (drop 4 pins)) (channel_pins s)
   \<and> next_id (snd (unpin_oldest pins s)) = next_id s
   \<and> sent (snd (unpin_oldest pins s)) = sent s"
proof (induction pins s rule: unpin_oldest.induct)
  case (1 pins s)
  show ?case
  proof (cases "length pins \<ge> 5")
    case False
    then have "unpin_oldest pins s = (pins, s)" by (subst unpin_oldest.simps) simp
    with False show ?thesis by simp
  next
    case True
    then obtain xs x where pins: "pins = xs @ [x]" by (cases pins rule: rev_cases) auto
    with True have len: "4 \<le> length xs" by simp
    have u: "unpin_oldest pins s = unpin_oldest xs (unpin x s)"
      using True pins by (subst unpin_oldest.simps) simp
    from "1.IH" [OF True] pins
    have ih: "fst (unpin_oldest xs (unpin x s)) = take 4 xs
       \<and> pin_log (snd (unpin_oldest xs (unpin x s)))
           = pin_log (unpin x s) @ map Unpin (rev (drop 4 xs))
       \<and> channel_pins (snd (unpin_oldest xs (unpin x s)))
           = filter (\<lambda>m. m \<notin> set (drop 4 xs)) (channel_pins (unpin x s))
       \<and> next_id (snd (unpin_oldest xs (unpin x s))) = next_id (unpin x s)
       \<and> sent (snd (unpin_oldest xs (unpin x s))) = sent (unpin x s)"
      by simp
    have f: "filter (\<lambda>m. m \<notin> set (drop 4 xs)) (removeAll x (channel_pins s))
        = filter (\<lambda>m. m \<notin> set (drop 4 xs) \<and> m \<noteq> x) (channel_pins s)"
      by (rule filter_removeAll)
    show ?thesis
      unfolding u using ih len
      by (simp add: pins unpin_def f conj_commute)
  qed
qed

lemma send_top_posts_result:
  assumes "send_top_posts pf subreddit content time s = (Inr m, s1)"
  shows "m = next_id s \<and> channel_pins s1 = channel_pins s \<and> pin_log s1 = pin_log s
       \<and> (\<exists>msg. sent s1 = sent s @ [(next_id s, msg)])"
proof -
  obtain r s0 where f: "fetch_posts pf (subreddit @ ''/top'') 5 (Some [(''t'', time)]) s = (r, s0)"
    by (cases "fetch_posts pf (subreddit @ ''/top'') 5 (Some [(''t'', time)]) s")
  from fetch_posts_frame [OF f] have s0: "s0 = s\<lparr>clock := clock s0, requests := requests s0\<rparr>" .
  have fr: "next_id s0 = next_id s" "channel_pins s0 = channel_pins s" "pin_log s0 = pin_log s"
    "sent s0 = sent s"
    by (subst s0, simp, subst s0, simp, subst s0, simp, subst s0, simp)
  from assms f fr show ?thesis
    by (auto simp: send_top_posts_def send_def split: sum.splits if_splits)
qed

lemma filter_take:
  "(\<And>x. x \<in> set (drop n ps) \<Longrightarrow> \<not> P x) \<Longrightarrow> filter P ps = filter P (take n ps)"
proof (induction ps arbitrary: n)
  case Nil
  show ?case by simp
next
  case (Cons p ps)
  show ?case
  proof (cases n)
    case 0
    with Cons.prems show ?thesis by (simp add: filter_empty_conv)
  next
    case (Suc k)
    with Cons.prems have "\<And>x. x \<in> set (drop k ps) \<Longrightarrow> \<not> P x" by simp
    from Cons.IH [OF this] Suc show ?thesis by simp
  qed
qed

lemma filter_not_in_drop:
  "length (filter (\<lambda>m. m \<notin> set (drop n ps)) ps) \<le> n"
proof -
  have "filter (\<lambda>m. m \<notin> set (drop n ps)) ps = filter (\<lambda>m. m \<notin> set (drop n ps)) (take n ps)"
    by (rule filter_take) simp
  then have "length (filter (\<lambda>m. m \<notin> set (drop n ps)) ps)
      = length (filter (\<lambda>m. m \<notin> set (drop n ps)) (take n ps))"
    by (rule arg_cong)
  also have "\<dots> \<le> length (take n ps)" by (rule length_filter_le)
  also have "\<dots> \<le> n" by simp
  finally show ?thesis .
qed

lemma filter_not_in_drop_distinct:
  assumes "distinct ps"
  shows "filter (\<lambda>m. m \<notin> set (drop n ps)) ps = take n ps"
proof -
  from assms have "distinct (take n ps @ drop n ps)" by simp
  then have d: "set (take n ps) \<inter> set (drop n ps) = {}" by (simp only: distinct_append)
  have "filter (\<lambda>m. m \<notin> set (drop n ps)) ps = filter (\<lambda>m. m \<notin> set (drop n ps)) (take n ps)"
    by (rule filter_take) simp
  also have "\<dots> = take n ps"
    using d by (auto simp: filter_id_conv)
  finally show ?thesis .
qed

text \<open>
  Claim C8. In a digest cycle that completes for a subreddit whose lower-case name is
  \<^verbatim>\<open>r/python\<close>, with the pins \<open>channel_pins s\<close> (most recent first) before it: the digest
  message is sent, then every pin from the fifth on is unpinned, the oldest first, and
  then the digest message is pinned. At most 5 pins remain; they are the new message and,
  the pins being distinct, the 4 most recent of the old ones. With exactly 5 pins before
  the cycle, the only unpin is that of the oldest, and it comes before the pin.
\<close>

theorem digest_pin_maintenance:
  assumes "lower subreddit = ''r/python''"
    and "digest_subreddit pf subreddit s = (None, s')"
  shows "length (channel_pins s') \<le> 5
       \<and> pin_log s' = pin_log s @ map Unpin (rev (drop 4 (channel_pins s))) @ [Pin (next_id s)]
       \<and> channel_pins s'
           = next_id s # filter (\<lambda>m. m \<notin> set (drop 4 (channel_pins s))) (channel_pins s)
       \<and> (\<exists>msg. sent s' = sent s @ [(next_id s, msg)])
       \<and> (distinct (channel_pins s) \<longrightarrow> channel_pins s' = next_id s # take 4 (channel_pins s))
       \<and> (length (channel_pins s) = 5
            \<longrightarrow> pin_log s' = pin_log s @ [Unpin (last (channel_pins s)), Pin (next_id s)])"
proof -
  let ?c = "Some (''This week'' @ [CHR 0x27] @ ''s top '' @ subreddit @ '' posts have arrived!'')"
  obtain r s1 where t: "send_top_posts pf subreddit ?c ''week'' s = (r, s1)"
    by (cases "send_top_posts pf subreddit ?c ''week'' s")
  from assms(2) t obtain m where r: "r = Inr m"
    by (cases r) (auto simp: digest_subreddit_def)
  from send_top_posts_result [OF t [unfolded r]]
  have m: "m = next_id s" and s1: "channel_pins s1 = channel_pins s" "pin_log s1 = pin_log s"
    and sent1: "\<exists>msg. sent s1 = sent s @ [(next_id s, msg)]"
    by auto
  let ?u = "unpin_oldest (channel_pins s1) s1"
  have "digest_subreddit pf subreddit s = (None, pin m (snd ?u))"
    unfolding digest_subreddit_def t r by (simp only: assms(1) case_prod_beta sum.case prod.sel simp_thms if_True)
  with assms(2) have s': "s' = pin m (snd ?u)" by (simp only: prod.inject)
  note u = unpin_oldest_result [of "channel_pins s1" s1]
  have 1: "pin_log s' = pin_log s @ map Unpin (rev (drop 4 (channel_pins s))) @ [Pin (next_id s)]"
    using u s1 m by (simp add: s' pin_def)
  have 2: "channel_pins s'
           = next_id s # filter (\<lambda>m. m \<notin> set (drop 4 (channel_pins s))) (channel_pins s)"
    using u s1 m by (simp add: s' pin_def)
  have 3: "length (channel_pins s') \<le> 5"
    using filter_not_in_drop [of 4 "channel_pins s"] by (simp add: 2)
  have 4: "\<exists>msg. sent s' = sent s @ [(next_id s, msg)]"
    using u sent1 by (simp add: s' pin_def)
  have 5: "channel_pins s' = next_id s # take 4 (channel_pins s)" if "distinct (channel_pins s)"
    using filter_not_in_drop_distinct [OF that, of 4] by (simp add: 2)
  have 6: "pin_log s' = pin_log s @ [Unpin (last (channel_pins s)), Pin (next_id s)]"
    if "length (channel_pins s) = 5"
  proof -
    from that have "drop 4 (channel_pins s) = [last (channel_pins s)]"
      by (cases "channel_pins s" rule: rev_cases) simp_all
    then show ?thesis by (simp add: 1)
  qed
  from 1 2 3 4 5 6 show ?thesis by (intro conjI impI)
qed

theorem digest_pin_maintenance_witness:
  "lower ''r/Python'' = ''r/python''
   \<and> fst (digest_subreddit (\<lambda>k. listing_response (map example_post [''4'', ''3'']))
        ''r/Python'' (ready [50, 40, 30, 20, 10])) = None
   \<and> pin_log (snd (digest_subreddit (\<lambda>k. listing_response (map example_post [''4'', ''3'']))
        ''r/Python'' (ready [50, 40, 30, 20, 10]))) = [Unpin 10, Pin 0]
   \<and> channel_pins (snd (digest_subreddit (\<lambda>k. listing_response (map example_post [''4'', ''3'']))
        ''r/Python'' (ready [50, 40, 30, 20, 10]))) = [0, 50, 40, 30, 20]"
proof -
  have l: "lower ''r/Python'' = ''r/python''"
    by code_simp
  have e: "fst (digest_subreddit (\<lambda>k. listing_response (map example_post [''4'', ''3'']))
        ''r/Python'' (ready [50, 40, 30, 20, 10])) = None"
    by (simp add: digest_subreddit_def send_top_posts_def fetch_posts_def MAX_FETCH_RETRIES_def
        numeral_3_eq_3 listing_response_def is_json_ok_def ready_def init_def issue_def Let_def
        send_def l case_prod_beta)
  have f: "channel_pins (ready [50, 40, 30, 20, 10]) = [50, 40, 30, 20, 10]"
    "pin_log (ready [50, 40, 30, 20, 10]) = []" "next_id (ready [50, 40, 30, 20, 10]) = 0"
    by (simp_all add: ready_def init_def)
  from digest_pin_maintenance [OF l, where pf = "\<lambda>k. listing_response (map example_post [''4'', ''3''])"
      and s = "ready [50, 40, 30, 20, 10]"
      and s' = "snd (digest_subreddit (\<lambda>k. listing_response (map example_post [''4'', ''3'']))
        ''r/Python'' (ready [50, 40, 30, 20, 10]))"] e
  show ?thesis
    by (simp add: f l prod_eq_iff)
qed

subsection \<open>\<^verbatim>\<open>poll_top_weekly_posts\<close>: the time slept\<close>

text \<open>
  The moment the loop sleeps until is a Monday with hour, minute and second 0 and the
  microsecond of \<open>now\<close>: \<^verbatim>\<open>replace(hour=0, minute=0, second=0)\<close> leaves the microsecond. The
  time slept is therefore a whole number of seconds.
\<close>

lemma until_monday_value:
  assumes "next_monday now = Inr monday"
  shows "ordinal monday = ordinal now + (7 - weekday now) \<and> weekday monday = 0
       \<and> hour monday = 0 \<and> minute monday = 0 \<and> second monday = 0
       \<and> microsecond monday = microsecond now
       \<and> until_monday now
           = Inr (((7 - weekday now) * 86400 - seconds_of_day now) * 1000000)"
proof -
  from assms have m: "monday = now\<lparr>ordinal := ordinal now + (7 - weekday now),
      hour := 0, minute := 0, second := 0\<rparr>"
    by (auto simp: next_monday_def add_days_def split: if_splits)
  have w: "weekday monday = 0"
    unfolding m weekday_def by simp presburger
  show ?thesis
    using w by (simp add: until_monday_def assms) (simp add: m sub_datetime_def seconds_of_day_def)
qed

text \<open>
  Claim C9, refuted. On Monday 2024-01-01 at 00:00:00.5 the moment computed is Monday
  2024-01-08 at 00:00:00.5, and the time slept is 604800 seconds; the time until Monday
  2024-01-08 at 00:00:00 is 604799.5 seconds.
\<close>

theorem until_monday_keeps_microseconds:
  "weekday monday_half_past = 0
   \<and> next_monday monday_half_past = Inr (next_monday_midnight\<lparr>microsecond := 500000\<rparr>)
   \<and> until_monday monday_half_past = Inr 604800000000
   \<and> sub_datetime next_monday_midnight monday_half_past = 604799500000"
  by (simp add: until_monday_def next_monday_def add_days_def weekday_def MAXORDINAL_def
      sub_datetime_def seconds_of_day_def monday_half_past_def next_monday_midnight_def)

end
